theory Spec2Isabelle
  imports Complex_Main "HOL-Library.Sublist"
begin

section \<open>The rule extractor of \<open>scripts/nox-gitleaks-import.py\<close>\<close>

text \<open>
  The function \<open>parse_gitleaks\<close> splits a configuration text on the marker \<open>[[rules]]\<close>
  and reads five fields out of every block with regular expressions. This theory embeds
  the function, the string operations and the regular expressions it uses, and proves
  properties of the result.

  A Python \<open>str\<close> is a sequence of code points. The model uses \<open>string\<close>; a \<open>char\<close> stands
  for a code point below 256, and the character classes below are the ones of Python on
  that range.
\<close>

subsection \<open>Characters\<close>

definition sq :: char where
  "sq = CHR 0x27"

definition dq :: char where
  "dq = CHR 0x22"

definition tsq :: string where
  "tsq = [sq, sq, sq]"

definition tdq :: string where
  "tdq = [dq, dq, dq]"

text \<open>
  \<open>str.isspace\<close>, which is also what \<open>\s\<close> matches in a \<open>str\<close> pattern and what
  \<open>str.strip()\<close> removes: the characters 0x09 to 0x0D, 0x1C to 0x20, 0x85 and 0xA0.
\<close>

definition is_space :: "char \<Rightarrow> bool" where
  "is_space c \<longleftrightarrow>
     c \<in> set [CHR 0x09, CHR 0x0A, CHR 0x0B, CHR 0x0C, CHR 0x0D, CHR 0x1C, CHR 0x1D,
              CHR 0x1E, CHR 0x1F, CHR 0x20, CHR 0x85, CHR 0xA0]"

text \<open>\<open>\d\<close>: the decimal digits; below 256 these are \<open>0\<close> to \<open>9\<close>.\<close>

definition is_digit :: "char \<Rightarrow> bool" where
  "is_digit c \<longleftrightarrow> c \<in> set ''0123456789''"

definition digit_val :: "char \<Rightarrow> nat" where
  "digit_val c = of_char c - 48"

subsection \<open>Errors\<close>

datatype error = ValueError

subsection \<open>Regular expressions\<close>

text \<open>
  The patterns of the source are sequences of single characters and character classes,
  each taken once or under one of the quantifiers \<open>*\<close>, \<open>+\<close>, \<open>+?\<close>, with one capture
  group. \<open>atom\<close> is what stands for one character outside brackets, \<open>cls\<close> adds the
  bracket expressions \<open>[...]\<close> and \<open>[^...]\<close>.
\<close>

datatype atom =
    Lit char    \<comment> \<open>the character itself\<close>
  | Space       \<comment> \<open>\<open>\s\<close>\<close>
  | Digit       \<comment> \<open>\<open>\d\<close>\<close>
  | Dot         \<comment> \<open>\<open>.\<close> without DOTALL: anything but a newline\<close>

datatype cls =
    A atom
  | OneOf "atom list"     \<comment> \<open>\<open>[...]\<close>\<close>
  | NoneOf "atom list"    \<comment> \<open>\<open>[^...]\<close>\<close>

datatype quant =
    One         \<comment> \<open>no quantifier\<close>
  | Star        \<comment> \<open>\<open>*\<close>, greedy\<close>
  | Plus        \<comment> \<open>\<open>+\<close>, greedy\<close>
  | StarLazy    \<comment> \<open>\<open>*?\<close>\<close>
  | PlusLazy    \<comment> \<open>\<open>+?\<close>\<close>

text \<open>
  An item is a quantified class; its first component says whether it stands inside
  the parentheses of group 1.
\<close>

type_synonym item = "bool \<times> quant \<times> cls"

type_synonym regex = "item list"

fun atom_match :: "atom \<Rightarrow> char \<Rightarrow> bool" where
  "atom_match (Lit a) c \<longleftrightarrow> c = a"
| "atom_match Space c \<longleftrightarrow> is_space c"
| "atom_match Digit c \<longleftrightarrow> is_digit c"
| "atom_match Dot c \<longleftrightarrow> c \<noteq> CHR 0x0A"

fun cls_match :: "cls \<Rightarrow> char \<Rightarrow> bool" where
  "cls_match (A a) c \<longleftrightarrow> atom_match a c"
| "cls_match (OneOf as) c \<longleftrightarrow> list_ex (\<lambda>a. atom_match a c) as"
| "cls_match (NoneOf as) c \<longleftrightarrow> \<not> list_ex (\<lambda>a. atom_match a c) as"

text \<open>
  A match is the text of group 1 and the input left after the match. \<open>keep\<close> puts a
  consumed character in front of the group text when the item is inside the group.
\<close>

definition keep :: "bool \<Rightarrow> char \<Rightarrow> (string \<times> string) option \<Rightarrow> (string \<times> string) option" where
  "keep cap x m = (case m of None \<Rightarrow> None
                   | Some (g, rest) \<Rightarrow> Some (if cap then x # g else g, rest))"

text \<open>
  The backtracking matcher of \<open>re\<close>, anchored at the start of the input: a greedy
  quantifier first takes one more character and gives it back when the rest of the
  pattern fails; a lazy one first tries the rest of the pattern.
\<close>

fun bt :: "regex \<Rightarrow> string \<Rightarrow> (string \<times> string) option" where
  "bt [] s = Some ([], s)"
| "bt ((cap, One, c) # r) [] = None"
| "bt ((cap, One, c) # r) (x # xs) =
     (if cls_match c x then keep cap x (bt r xs) else None)"
| "bt ((cap, Star, c) # r) [] = bt r []"
| "bt ((cap, Star, c) # r) (x # xs) =
     (if cls_match c x
      then (case keep cap x (bt ((cap, Star, c) # r) xs) of
              Some m \<Rightarrow> Some m
            | None \<Rightarrow> bt r (x # xs))
      else bt r (x # xs))"
| "bt ((cap, Plus, c) # r) [] = None"
| "bt ((cap, Plus, c) # r) (x # xs) =
     (if cls_match c x then keep cap x (bt ((cap, Star, c) # r) xs) else None)"
| "bt ((cap, StarLazy, c) # r) [] = bt r []"
| "bt ((cap, StarLazy, c) # r) (x # xs) =
     (case bt r (x # xs) of
        Some m \<Rightarrow> Some m
      | None \<Rightarrow> if cls_match c x then keep cap x (bt ((cap, StarLazy, c) # r) xs) else None)"
| "bt ((cap, PlusLazy, c) # r) [] = None"
| "bt ((cap, PlusLazy, c) # r) (x # xs) =
     (if cls_match c x then keep cap x (bt ((cap, StarLazy, c) # r) xs) else None)"

text \<open>
  \<open>re.search(p, s)\<close> followed by \<open>.group(1)\<close>: the match at the leftmost position
  that has one, \<open>None\<close> when no position has.
\<close>

fun search :: "regex \<Rightarrow> string \<Rightarrow> string option" where
  "search p [] = (case bt p [] of Some (g, rest) \<Rightarrow> Some g | None \<Rightarrow> None)"
| "search p (x # xs) =
     (case bt p (x # xs) of Some (g, rest) \<Rightarrow> Some g | None \<Rightarrow> search p xs)"

text \<open>
  \<open>re.findall(p, s)\<close> for a pattern with one group: the group texts of the matches
  found from left to right, each search starting where the last match ended. A match
  that consumes nothing makes the scan go on one character further; the pattern given
  to \<open>findall\<close> by this program consumes at least two characters.
\<close>

function findall :: "regex \<Rightarrow> string \<Rightarrow> string list" where
  "findall p s =
     (case bt p s of
        Some (g, rest) \<Rightarrow>
          if length rest < length s then g # findall p rest
          else (case s of [] \<Rightarrow> [g] | x # xs \<Rightarrow> g # findall p xs)
      | None \<Rightarrow> (case s of [] \<Rightarrow> [] | x # xs \<Rightarrow> findall p xs))"
  by pat_completeness auto
termination
  by (relation "measure (\<lambda>(p, s). length s)") auto

subsection \<open>The patterns of the source\<close>

definition lit :: "string \<Rightarrow> regex" where
  "lit s = map (\<lambda>c. (False, One, A (Lit c))) s"

definition ws :: item where
  "ws = (False, Star, A Space)"

definition grp :: "quant \<Rightarrow> cls \<Rightarrow> item" where
  "grp q c = (True, q, c)"

text \<open>\<^verbatim>\<open>id\s*=\s*"([^"]+)"\<close>\<close>

definition re_id :: regex where
  "re_id = lit ''id'' @ [ws] @ lit ''='' @ [ws] @ lit [dq]
           @ [grp Plus (NoneOf [Lit dq])] @ lit [dq]"

text \<open>\<^verbatim>\<open>description\s*=\s*"([^"]+)"\<close>\<close>

definition re_description :: regex where
  "re_description = lit ''description'' @ [ws] @ lit ''='' @ [ws] @ lit [dq]
           @ [grp Plus (NoneOf [Lit dq])] @ lit [dq]"

text \<open>\<^verbatim>\<open>regex\s*=\s*'''(.+?)'''\<close>\<close>

definition re_regex_tsq :: regex where
  "re_regex_tsq = lit ''regex'' @ [ws] @ lit ''='' @ [ws] @ lit tsq
           @ [grp PlusLazy (A Dot)] @ lit tsq"

text \<open>\<^verbatim>\<open>regex\s*=\s*"""(.+?)"""\<close>\<close>

definition re_regex_tdq :: regex where
  "re_regex_tdq = lit ''regex'' @ [ws] @ lit ''='' @ [ws] @ lit tdq
           @ [grp PlusLazy (A Dot)] @ lit tdq"

text \<open>\<^verbatim>\<open>regex\s*=\s*"([^"]+)"\<close>\<close>

definition re_regex_dq :: regex where
  "re_regex_dq = lit ''regex'' @ [ws] @ lit ''='' @ [ws] @ lit [dq]
           @ [grp Plus (NoneOf [Lit dq])] @ lit [dq]"

text \<open>\<^verbatim>\<open>keywords\s*=\s*\[([^\]]+)\]\<close>\<close>

definition re_keywords :: regex where
  "re_keywords = lit ''keywords'' @ [ws] @ lit ''='' @ [ws] @ lit ''[''
           @ [grp Plus (NoneOf [Lit (CHR '']'')])] @ lit '']''"

text \<open>\<^verbatim>\<open>"([^"]+)"\<close>\<close>

definition re_quoted :: regex where
  "re_quoted = lit [dq] @ [grp Plus (NoneOf [Lit dq])] @ lit [dq]"

text \<open>\<^verbatim>\<open>entropy\s*=\s*([\d.]+)\<close>\<close>

definition re_entropy :: regex where
  "re_entropy = lit ''entropy'' @ [ws] @ lit ''='' @ [ws]
           @ [grp Plus (OneOf [Digit, Lit (CHR ''.'')])]"

subsection \<open>String operations\<close>

text \<open>\<open>s.strip()\<close>: \<open>s\<close> without its leading and trailing white space.\<close>

definition strip :: "string \<Rightarrow> string" where
  "strip s = rev (dropWhile is_space (rev (dropWhile is_space s)))"

text \<open>
  \<open>s.split(sep)\<close>: the segments between the occurrences of \<open>sep\<close>, found from left to
  right without overlap; \<open>cur\<close> holds the current segment, reversed. An empty separator
  raises \<open>ValueError\<close>.
\<close>

function split_from :: "string \<Rightarrow> string \<Rightarrow> string \<Rightarrow> string list" where
  "split_from sep cur [] = [rev cur]"
| "split_from sep cur (x # xs) =
     (if sep \<noteq> [] \<and> prefix sep (x # xs)
      then rev cur # split_from sep [] (drop (length sep) (x # xs))
      else split_from sep (x # cur) xs)"
  by pat_completeness auto
termination
  by (relation "measure (\<lambda>(sep, cur, s). length s)") auto

definition split :: "string \<Rightarrow> string \<Rightarrow> error + string list" where
  "split s sep = (if sep = [] then Inl ValueError else Inr (split_from sep [] s))"

text \<open>
  \<open>float(s)\<close> on the strings the program passes to it, which consist of digits and
  dots (lemma \<open>entropy_capture_chars\<close> below): the value of the decimal numeral when \<open>s\<close>
  has at least one digit and at most one dot, \<open>ValueError\<close> otherwise. The result is
  the exact decimal value; the rounding to a binary64 number, and the overflow to \<open>inf\<close>
  of a very long numeral, are not modelled (the values 0.0 and 6.0 the claims speak of
  are exact, and whether \<open>float\<close> raises does not depend on them). Signs, exponents, \<open>inf\<close>, \<open>nan\<close>,
  underscores and surrounding blanks, which \<open>float\<close> also accepts, never reach it here
  and are rejected by the model.
\<close>

definition dec :: "string \<Rightarrow> nat" where
  "dec ds = foldl (\<lambda>n c. 10 * n + digit_val c) 0 ds"

definition float :: "string \<Rightarrow> error + real" where
  "float s =
     (let ip = takeWhile is_digit s; r = dropWhile is_digit s
      in case r of
           [] \<Rightarrow> if ip = [] then Inl ValueError else Inr (real (dec ip))
         | d # fp \<Rightarrow>
             if d = CHR ''.'' \<and> list_all is_digit fp \<and> (ip \<noteq> [] \<or> fp \<noteq> [])
             then Inr (real (dec ip) + real (dec fp) / 10 ^ length fp)
             else Inl ValueError)"

subsection \<open>The rule record\<close>

text \<open>The dictionary appended to \<open>rules\<close>; its keys \<open>id\<close> and \<open>keywords\<close> are the fields
  \<open>rule_id\<close> and \<open>rule_keywords\<close>.\<close>

record rule =
  rule_id :: string
  description :: string
  regex :: string
  rule_keywords :: "string list"
  entropy :: real

subsection \<open>Field extraction\<close>

text \<open>
  \<^verbatim>\<open>desc_match = re.search(r'description\s*=\s*"([^"]+)"', block)\<close>
  \<^verbatim>\<open>description = desc_match.group(1) if desc_match else ""\<close>
\<close>

definition get_description :: "string \<Rightarrow> string" where
  "get_description block =
     (let desc_match = search re_description block
      in case desc_match of Some g \<Rightarrow> g | None \<Rightarrow> [])"

text \<open>
  \<^verbatim>\<open>regex_match = re.search(r"regex\s*=\s*'''(.+?)'''", block)\<close>
  \<^verbatim>\<open>if not regex_match: regex_match = re.search(r'regex\s*=\s*"""(.+?)"""', block)\<close>
  \<^verbatim>\<open>if not regex_match: regex_match = re.search(r'regex\s*=\s*"([^"]+)"', block)\<close>
  \<^verbatim>\<open>regex_pattern = regex_match.group(1) if regex_match else ""\<close>
\<close>

definition get_regex_match :: "string \<Rightarrow> string option" where
  "get_regex_match block =
     (let regex_match = search re_regex_tsq block;
          regex_match = (if regex_match = None then search re_regex_tdq block
                         else regex_match);
          regex_match = (if regex_match = None then search re_regex_dq block
                         else regex_match)
      in regex_match)"

definition get_regex_pattern :: "string \<Rightarrow> string" where
  "get_regex_pattern block =
     (case get_regex_match block of Some g \<Rightarrow> g | None \<Rightarrow> [])"

text \<open>
  \<^verbatim>\<open>keywords = []\<close>
  \<^verbatim>\<open>kw_match = re.search(r"keywords\s*=\s*\[([^\]]+)\]", block)\<close>
  \<^verbatim>\<open>if kw_match: keywords = re.findall(r'"([^"]+)"', kw_match.group(1))\<close>
\<close>

definition get_keywords :: "string \<Rightarrow> string list" where
  "get_keywords block =
     (let kw_match = search re_keywords block
      in case kw_match of Some g \<Rightarrow> findall re_quoted g | None \<Rightarrow> [])"

text \<open>
  \<^verbatim>\<open>entropy = 0.0\<close>
  \<^verbatim>\<open>ent_match = re.search(r"entropy\s*=\s*([\d.]+)", block)\<close>
  \<^verbatim>\<open>if ent_match: entropy = float(ent_match.group(1))\<close>
\<close>

definition get_entropy :: "string \<Rightarrow> error + real" where
  "get_entropy block =
     (let ent_match = search re_entropy block
      in case ent_match of Some g \<Rightarrow> float g | None \<Rightarrow> Inr 0)"

subsection \<open>The loop over the blocks\<close>

text \<open>
  One run of the loop body on \<open>block\<close>, with the list \<open>rules\<close> built so far: the new
  list, or the exception that leaves the function. The two \<open>continue\<close>s and the
  final \<open>if regex_pattern\<close> give \<open>rules\<close> back unchanged.
\<close>

definition block_step :: "rule list \<Rightarrow> string \<Rightarrow> error + rule list" where
  "block_step rules block =
     (if strip block = [] then Inr rules
      else case search re_id block of
        None \<Rightarrow> Inr rules
      | Some rid \<Rightarrow>
          (let desc = get_description block;
               regex_pattern = get_regex_pattern block;
               kws = get_keywords block
           in case get_entropy block of
                Inl e \<Rightarrow> Inl e
              | Inr ent \<Rightarrow>
                  if regex_pattern \<noteq> []
                  then Inr (rules @ [\<lparr>rule_id = rid, description = desc,
                                      regex = regex_pattern, rule_keywords = kws,
                                      entropy = ent\<rparr>])
                  else Inr rules))"

fun loop :: "rule list \<Rightarrow> string list \<Rightarrow> error + rule list" where
  "loop rules [] = Inr rules"
| "loop rules (block # blocks) =
     (case block_step rules block of
        Inl e \<Rightarrow> Inl e
      | Inr rules' \<Rightarrow> loop rules' blocks)"

text \<open>
  \<^verbatim>\<open>rules = []\<close>
  \<^verbatim>\<open>parts = content.split("[[rules]]")\<close>
  \<^verbatim>\<open>for block in parts[1:]: ...\<close>
  \<^verbatim>\<open>return rules\<close>
\<close>

definition parse_gitleaks :: "string \<Rightarrow> error + rule list" where
  "parse_gitleaks content =
     (case split content ''[[rules]]'' of
        Inl e \<Rightarrow> Inl e
      | Inr parts \<Rightarrow> loop [] (drop 1 parts))"

subsection \<open>Notions used to state the properties\<close>

text \<open>
  The least number of characters that a match of an item puts into the group text.
\<close>

fun needs :: "item \<Rightarrow> nat" where
  "needs (cap, q, c) = (if cap \<and> (q = One \<or> q = Plus \<or> q = PlusLazy) then 1 else 0)"

text \<open>The least number of characters that a match of an item consumes.\<close>

fun takes :: "item \<Rightarrow> nat" where
  "takes (cap, q, c) = (if q = One \<or> q = Plus \<or> q = PlusLazy then 1 else 0)"

text \<open>\<open>sep.join(xs)\<close>, the inverse of \<open>split\<close>.\<close>

fun join :: "string \<Rightarrow> string list \<Rightarrow> string" where
  "join sep [] = []"
| "join sep [x] = x"
| "join sep (x # y # ys) = x @ sep @ join sep (y # ys)"

text \<open>The records that a block contributes when it is processed on its own.\<close>

definition block_records :: "string \<Rightarrow> rule list" where
  "block_records block = (case block_step [] block of Inl e \<Rightarrow> [] | Inr rs \<Rightarrow> rs)"

text \<open>
  The pattern extraction as the specification words it: the patterns are tried in the
  given order and the first that matches is used.
\<close>

fun first_match :: "regex list \<Rightarrow> string \<Rightarrow> string option" where
  "first_match [] block = None"
| "first_match (p # ps) block =
     (case search p block of Some g \<Rightarrow> Some g | None \<Rightarrow> first_match ps block)"

text \<open>
  A keyword in double quotes, and the text of a list of keywords, each with the text
  that separates it from the one before.
\<close>

definition quoted :: "string \<Rightarrow> string" where
  "quoted k = dq # k @ [dq]"

definition kw_body :: "(string \<times> string) list \<Rightarrow> string" where
  "kw_body ks = concat (map (\<lambda>(sp, k). sp @ quoted k) ks)"

text \<open>
  Some match of the pattern \<open>p\<close> in the text \<open>pre @ s\<close> starts inside \<open>pre\<close>. When none
  does, the leftmost match in \<open>pre @ s\<close> is the leftmost match in \<open>s\<close>.
\<close>

fun starts_in :: "regex \<Rightarrow> string \<Rightarrow> string \<Rightarrow> bool" where
  "starts_in p [] s \<longleftrightarrow> False"
| "starts_in p (x # pre) s \<longleftrightarrow> bt p (x # pre @ s) \<noteq> None \<or> starts_in p pre s"

text \<open>
  The text of a \<open>regex\<close> key with the value \<open>v\<close> between the delimiters \<open>d\<close>, with the
  white space \<open>w1\<close> and \<open>w2\<close> around the equals sign.
\<close>

definition regex_key :: "string \<Rightarrow> string \<Rightarrow> string \<Rightarrow> string \<Rightarrow> string" where
  "regex_key w1 w2 d v = ''regex'' @ w1 @ ''='' @ w2 @ d @ v @ d"

section \<open>Lemmas\<close>

subsection \<open>The matcher\<close>

lemma keep_False [simp]: "keep False x m = m"
  by (simp add: keep_def split: option.splits)

lemma keep_Some [simp]: "keep cap x (Some (g, rest)) = Some (if cap then x # g else g, rest)"
  by (simp add: keep_def)

lemma keep_None [simp]: "keep cap x None = None"
  by (simp add: keep_def)

lemma keep_eq_None [simp]: "keep cap x m = None \<longleftrightarrow> m = None"
  by (simp add: keep_def split: option.splits)

lemma bt_lit: "bt (lit l @ r) (l @ s) = bt r s"
  by (induction l) (simp_all add: lit_def)

lemma bt_lit_prefix: "bt (lit l @ r) t \<noteq> None \<Longrightarrow> prefix l t"
proof (induction l arbitrary: t)
  case Nil
  then show ?case by simp
next
  case (Cons a l)
  then show ?case
    by (cases t) (auto simp: lit_def split: if_splits)
qed

lemma bt_ws_skip:
  assumes "\<forall>x\<in>set w. is_space x" and "\<And>x t. is_space x \<Longrightarrow> bt r (x # t) = None"
  shows "bt (ws # r) (w @ s) = bt (ws # r) s"
  using assms(1)
proof (induction w)
  case Nil
  then show ?case by simp
next
  case (Cons x w)
  then have "is_space x" by simp
  with Cons assms(2) show ?case
    by (simp add: ws_def split: option.splits)
qed

lemma bt_ws_lit:
  assumes "\<forall>x\<in>set w. is_space x" and "\<not> is_space c"
  shows "bt (ws # lit (c # l) @ r) (w @ c # s) = bt (lit l @ r) s"
proof -
  have "bt (ws # lit (c # l) @ r) (w @ c # s) = bt (ws # lit (c # l) @ r) (c # s)"
    using assms by (intro bt_ws_skip) (auto simp: lit_def)
  also have "\<dots> = bt (lit l @ r) s"
    using assms(2) by (simp add: ws_def lit_def)
  finally show ?thesis .
qed

lemma bt_Some_search: "bt p t = Some (g, rest) \<Longrightarrow> search p t = Some g"
  by (cases t) simp_all

lemma bt_None_search: "bt p (x # t) = None \<Longrightarrow> search p (x # t) = search p t"
  by simp

lemma key_no_overlap:
  assumes "hd key \<notin> set (tl key)" and "u \<noteq> []" and "prefix key (u @ key @ s)"
  shows "prefix key u"
proof (rule ccontr)
  assume np: "\<not> prefix key u"
  from assms(3) have "prefix key u \<or> (\<exists>k2. key = u @ k2 \<and> prefix k2 (key @ s))"
    by (auto simp: prefix_append)
  with np obtain k2 where k: "key = u @ k2" and p: "prefix k2 (key @ s)" by blast
  from k np have "k2 \<noteq> []" by auto
  obtain a k3 where k2: "k2 = a # k3" using \<open>k2 \<noteq> []\<close> by (cases k2) auto
  obtain b u' where u: "u = b # u'" using assms(2) by (cases u) auto
  from p have "a = b" unfolding k k2 u by simp
  then have "hd k2 = hd key" by (simp add: k k2 u)
  moreover from k assms(2) \<open>k2 \<noteq> []\<close> have "hd k2 \<in> set (tl key)"
    by (cases u) auto
  ultimately show False using assms(1) by simp
qed

lemma search_skip_key:
  assumes "hd key \<notin> set (tl key)" and "\<not> sublist key pre"
  shows "search (lit key @ r) (pre @ key @ s) = search (lit key @ r) (key @ s)"
  using assms(2)
proof (induction pre)
  case Nil
  then show ?case by simp
next
  case (Cons x pre)
  then have ns: "\<not> sublist key pre" and np: "\<not> prefix key (x # pre)"
    by (auto simp: sublist_Cons_right)
  have "bt (lit key @ r) (x # pre @ key @ s) = None"
  proof (rule ccontr)
    assume "bt (lit key @ r) (x # pre @ key @ s) \<noteq> None"
    then have "prefix key ((x # pre) @ key @ s)"
      using bt_lit_prefix by fastforce
    then have "prefix key (x # pre)"
      using key_no_overlap [OF assms(1)] by blast
    with np show False by simp
  qed
  then show ?case using Cons.IH [OF ns] by simp
qed

subsection \<open>Captures\<close>

text \<open>
  What the group holds when the value has a known shape.
\<close>

lemma bt_star_noneof:
  "q \<notin> set p \<Longrightarrow> bt ((True, Star, NoneOf [Lit q]) # lit [q]) (p @ q # s) = Some (p, s)"
  by (induction p) (auto simp: lit_def)

lemma bt_plus_noneof:
  assumes "p \<noteq> []" and "q \<notin> set p"
  shows "bt ([grp Plus (NoneOf [Lit q])] @ lit [q]) (p @ q # s) = Some (p, s)"
proof -
  obtain x p' where p: "p = x # p'" using assms(1) by (cases p) auto
  with assms(2) have "x \<noteq> q" and "q \<notin> set p'" by auto
  then show ?thesis
    using bt_star_noneof [of q p' s] by (simp add: p grp_def)
qed

lemma bt_plus_noneof_empty:
  "bt ([grp Plus (NoneOf [Lit q])] @ r) (q # s) = None"
  by (simp add: grp_def)

lemma bt_starlazy_dot:
  assumes "a \<notin> set p" and "CHR 0x0A \<notin> set p"
  shows "bt ((True, StarLazy, A Dot) # lit [a, a, a]) (p @ [a, a, a] @ s) = Some (p, s)"
  using assms
proof (induction p)
  case Nil
  then show ?case by (simp add: lit_def)
next
  case (Cons x p)
  then show ?case by (auto simp: lit_def)
qed

lemma bt_pluslazy_dot:
  assumes "p \<noteq> []" and "a \<notin> set p" and "CHR 0x0A \<notin> set p"
  shows "bt ([grp PlusLazy (A Dot)] @ lit [a, a, a]) (p @ [a, a, a] @ s) = Some (p, s)"
proof -
  obtain x p' where p: "p = x # p'" using assms(1) by (cases p) auto
  with assms have "x \<noteq> CHR 0x0A" and "a \<notin> set p'" and "CHR 0x0A \<notin> set p'" by auto
  then show ?thesis
    using bt_starlazy_dot [of a p' s] by (simp add: p grp_def)
qed

lemma bt_star_run:
  assumes "\<forall>x\<in>set p. cls_match c x" and "s = [] \<or> \<not> cls_match c (hd s)"
  shows "bt [(True, Star, c)] (p @ s) = Some (p, s)"
  using assms
proof (induction p)
  case Nil
  then show ?case by (cases s) auto
next
  case (Cons x p)
  then show ?case by simp
qed

lemma bt_plus_run:
  assumes "p \<noteq> []" and "\<forall>x\<in>set p. cls_match c x" and "s = [] \<or> \<not> cls_match c (hd s)"
  shows "bt [grp Plus c] (p @ s) = Some (p, s)"
proof -
  obtain x p' where p: "p = x # p'" using assms(1) by (cases p) auto
  with assms(2) have "cls_match c x" and "\<forall>x\<in>set p'. cls_match c x" by auto
  then show ?thesis
    using bt_star_run [of p' c s] assms(3) by (simp add: p grp_def)
qed

subsection \<open>What a match says about the group text\<close>

lemma bt_group_length:
  "bt p s = Some (g, rest) \<Longrightarrow> sum_list (map needs p) \<le> length g"
proof (induction p s arbitrary: g rest rule: bt.induct)
  case (1 s)
  then show ?case by simp
next
  case (5 cap c r x xs)
  then show ?case
    by (auto simp: keep_def split: if_splits option.splits)
next
  case (9 cap c r x xs)
  then show ?case
    by (auto simp: keep_def split: if_splits option.splits)
qed (auto simp: keep_def split: if_splits option.splits)

lemma bt_group_chars:
  "bt p s = Some (g, rest) \<Longrightarrow> x \<in> set g \<Longrightarrow> \<exists>q c. (True, q, c) \<in> set p \<and> cls_match c x"
proof (induction p s arbitrary: g rest rule: bt.induct)
  case (1 s)
  then show ?case by simp
qed (fastforce simp: keep_def split: if_splits option.splits)+

lemma search_Some_bt:
  "search p s = Some g \<Longrightarrow> \<exists>u rest. suffix u s \<and> bt p u = Some (g, rest)"
proof (induction s)
  case Nil
  then show ?case by (auto split: option.splits)
next
  case (Cons x s)
  show ?case
  proof (cases "bt p (x # s)")
    case None
    with Cons obtain u rest where "suffix u s" and "bt p u = Some (g, rest)" by auto
    then show ?thesis by (auto intro: suffix_ConsI)
  next
    case (Some m)
    with Cons.prems show ?thesis by (cases m) auto
  qed
qed

lemma id_nonempty: "search re_id b = Some g \<Longrightarrow> g \<noteq> []"
proof -
  assume "search re_id b = Some g"
  then obtain u rest where "bt re_id u = Some (g, rest)"
    using search_Some_bt by blast
  from bt_group_length [OF this] show ?thesis
    by (auto simp: re_id_def lit_def ws_def grp_def)
qed

lemma entropy_capture_chars:
  assumes "search re_entropy b = Some g"
  shows "g \<noteq> [] \<and> (\<forall>x\<in>set g. is_digit x \<or> x = CHR ''.'')"
proof -
  from assms obtain u rest where m: "bt re_entropy u = Some (g, rest)"
    using search_Some_bt by blast
  from bt_group_length [OF m] have "g \<noteq> []"
    by (auto simp: re_entropy_def lit_def ws_def grp_def)
  moreover have "is_digit x \<or> x = CHR ''.''" if "x \<in> set g" for x
    using bt_group_chars [OF m that]
    by (auto simp: re_entropy_def lit_def ws_def grp_def)
  ultimately show ?thesis by blast
qed

subsection \<open>The scan of \<open>findall\<close>\<close>

declare findall.simps [simp del]

lemma findall_None: "bt p (x # xs) = None \<Longrightarrow> findall p (x # xs) = findall p xs"
  by (simp add: findall.simps [of p "x # xs"])

lemma findall_Nil_None: "bt p [] = None \<Longrightarrow> findall p [] = []"
  by (simp add: findall.simps [of p "[]"])

lemma findall_Some:
  "bt p s = Some (g, rest) \<Longrightarrow> length rest < length s \<Longrightarrow> findall p s = g # findall p rest"
  by (simp add: findall.simps [of p s])

lemma findall_quoted_skip:
  "dq \<notin> set sp \<Longrightarrow> findall re_quoted (sp @ s) = findall re_quoted s"
proof (induction sp)
  case Nil
  then show ?case by simp
next
  case (Cons x sp)
  then have "x \<noteq> dq" by auto
  then have "bt re_quoted (x # sp @ s) = None"
    by (simp add: re_quoted_def lit_def)
  with Cons show ?case by (simp add: findall_None)
qed

lemma findall_quoted_Nil: "findall re_quoted [] = []"
  by (simp add: findall_Nil_None re_quoted_def lit_def)

lemma findall_quoted_one:
  assumes "k \<noteq> []" and "dq \<notin> set k"
  shows "findall re_quoted (quoted k @ s) = k # findall re_quoted s"
proof -
  have "bt re_quoted (quoted k @ s) = bt ([grp Plus (NoneOf [Lit dq])] @ lit [dq]) (k @ dq # s)"
    by (simp add: re_quoted_def quoted_def lit_def)
  also have "\<dots> = Some (k, s)"
    by (rule bt_plus_noneof [OF assms])
  finally show ?thesis
    by (simp add: findall_Some quoted_def)
qed

lemma findall_kw_body:
  assumes "\<forall>(sp, k)\<in>set ks. k \<noteq> [] \<and> dq \<notin> set sp \<and> dq \<notin> set k" and "dq \<notin> set t"
  shows "findall re_quoted (kw_body ks @ t) = map snd ks"
  using assms(1)
proof (induction ks)
  case Nil
  have "findall re_quoted (t @ []) = findall re_quoted []"
    by (rule findall_quoted_skip [OF assms(2)])
  then show ?case by (simp add: kw_body_def findall_quoted_Nil)
next
  case (Cons a ks)
  obtain sp k where a: "a = (sp, k)" by (cases a)
  with Cons.prems have k: "k \<noteq> []" "dq \<notin> set sp" "dq \<notin> set k" by auto
  have "findall re_quoted (kw_body (a # ks) @ t)
        = findall re_quoted (sp @ (quoted k @ (kw_body ks @ t)))"
    by (simp add: kw_body_def a)
  also have "\<dots> = k # findall re_quoted (kw_body ks @ t)"
    by (simp add: findall_quoted_skip [OF k(2)] findall_quoted_one [OF k(1,3)])
  finally show ?case using Cons by (simp add: a)
qed

subsection \<open>A key, an equals sign and a value\<close>

text \<open>
  All patterns of the source but one begin with a key, white space, \<open>=\<close> and white space.
  A key whose first character does not occur again in it cannot overlap itself, so a
  text that does not contain the key holds no start of a match.
\<close>

lemma search_skip_chars:
  "c \<notin> set u \<Longrightarrow> search (lit (c # k) @ r) (u @ s) = search (lit (c # k) @ r) s"
  by (induction u) (auto simp: lit_def)

lemma bt_ws_nonspace:
  "s = [] \<or> \<not> is_space (hd s) \<Longrightarrow> bt (ws # r) s = bt r s"
  by (cases s) (auto simp: ws_def)

lemma bt_key_value:
  assumes "\<forall>x\<in>set w1. is_space x" and "\<forall>x\<in>set w2. is_space x"
    and "\<And>x t. is_space x \<Longrightarrow> bt r (x # t) = None"
    and "s = [] \<or> \<not> is_space (hd s)"
  shows "bt (lit key @ [ws] @ lit ''='' @ [ws] @ r) (key @ w1 @ ''='' @ w2 @ s) = bt r s"
proof -
  have eq: "\<not> is_space (CHR ''='')" by (simp add: is_space_def)
  have "bt (lit key @ [ws] @ lit ''='' @ [ws] @ r) (key @ w1 @ ''='' @ w2 @ s)
        = bt (ws # lit ''='' @ (ws # r)) (w1 @ CHR ''='' # (w2 @ s))"
    by (simp add: bt_lit)
  also have "\<dots> = bt (lit [] @ (ws # r)) (w2 @ s)"
    by (rule bt_ws_lit [OF assms(1) eq])
  also have "\<dots> = bt (ws # r) s"
    using bt_ws_skip [OF assms(2,3)] by (simp add: lit_def)
  finally show ?thesis using bt_ws_nonspace [OF assms(4)] by simp
qed

lemma search_at_key:
  assumes "hd key \<notin> set (tl key)" and "\<not> sublist key pre"
    and "\<forall>x\<in>set w1. is_space x" and "\<forall>x\<in>set w2. is_space x"
    and "\<And>x t. is_space x \<Longrightarrow> bt r (x # t) = None"
    and "s = [] \<or> \<not> is_space (hd s)"
    and "bt r s = Some (g, rest)"
  shows "search (lit key @ [ws] @ lit ''='' @ [ws] @ r) (pre @ key @ w1 @ ''='' @ w2 @ s) = Some g"
proof -
  let ?p = "lit key @ [ws] @ lit ''='' @ [ws] @ r"
  have "search ?p (pre @ key @ w1 @ ''='' @ w2 @ s) = search ?p (key @ w1 @ ''='' @ w2 @ s)"
    by (rule search_skip_key [OF assms(1,2)])
  moreover have "bt ?p (key @ w1 @ ''='' @ w2 @ s) = Some (g, rest)"
    using bt_key_value [OF assms(3-6)] assms(7) by simp
  ultimately show ?thesis by (simp add: bt_Some_search)
qed

lemma search_past_key:
  assumes "hd key \<notin> set (tl key)" and "\<not> sublist key pre" and "key \<noteq> []"
    and "\<not> is_space (hd key)" and "hd key \<noteq> CHR ''=''"
    and "\<forall>x\<in>set w1. is_space x" and "\<forall>x\<in>set w2. is_space x"
    and "\<And>x t. is_space x \<Longrightarrow> bt r (x # t) = None"
    and "s = [] \<or> \<not> is_space (hd s)"
    and "bt r s = None"
  shows "search (lit key @ [ws] @ lit ''='' @ [ws] @ r) (pre @ key @ w1 @ ''='' @ w2 @ s)
         = search (lit key @ [ws] @ lit ''='' @ [ws] @ r) s"
proof -
  let ?p = "lit key @ [ws] @ lit ''='' @ [ws] @ r"
  obtain c k where key: "key = c # k" using assms(3) by (cases key) auto
  have c: "c \<notin> set (k @ w1 @ ''='' @ w2)"
    using assms(1,4,5,6,7) by (auto simp: key)
  have "bt ?p (key @ w1 @ ''='' @ w2 @ s) = None"
    using bt_key_value [OF assms(6-9)] assms(10) by simp
  then have none: "bt ?p (c # ((k @ w1 @ ''='' @ w2) @ s)) = None"
    by (simp add: key)
  have "search ?p (pre @ key @ w1 @ ''='' @ w2 @ s) = search ?p (key @ w1 @ ''='' @ w2 @ s)"
    by (rule search_skip_key [OF assms(1,2)])
  also have "\<dots> = search ?p (c # ((k @ w1 @ ''='' @ w2) @ s))"
    by (simp add: key)
  also have "\<dots> = search ?p ((k @ w1 @ ''='' @ w2) @ s)"
    by (rule bt_None_search [OF none])
  also have "\<dots> = search ?p s"
    unfolding key by (rule search_skip_chars [OF c])
  finally show ?thesis .
qed

lemma search_lit_sublist: "search (lit key @ r) s = Some g \<Longrightarrow> sublist key s"
proof -
  assume "search (lit key @ r) s = Some g"
  then obtain u rest where "suffix u s" and "bt (lit key @ r) u = Some (g, rest)"
    using search_Some_bt by blast
  then have "suffix u s" and "prefix key u" using bt_lit_prefix [of key r u] by auto
  then show ?thesis by (auto simp: sublist_altdef')
qed

lemma search_absent: "\<not> sublist key s \<Longrightarrow> search (lit key @ r) s = None"
  using search_lit_sublist [of key r s] by (cases "search (lit key @ r) s") auto

subsection \<open>The patterns of the fields at a key\<close>

lemma space_reject_lit:
  "\<not> is_space c \<Longrightarrow> is_space x \<Longrightarrow> bt (lit (c # l) @ r) (x # t) = None"
  by (auto simp: lit_def)

lemma not_space_dq: "\<not> is_space dq"
  by (simp add: is_space_def dq_def)

lemma not_space_sq: "\<not> is_space sq"
  by (simp add: is_space_def sq_def)

lemma search_quoted_value:
  assumes "hd key \<notin> set (tl key)" and "\<not> sublist key pre"
    and "\<forall>x\<in>set w1. is_space x" and "\<forall>x\<in>set w2. is_space x"
    and "p \<noteq> []" and "dq \<notin> set p"
  shows "search (lit key @ [ws] @ lit ''='' @ [ws] @ lit [dq]
                 @ [grp Plus (NoneOf [Lit dq])] @ lit [dq])
           (pre @ key @ w1 @ ''='' @ w2 @ [dq] @ p @ [dq] @ rest) = Some p"
proof -
  let ?r = "lit [dq] @ [grp Plus (NoneOf [Lit dq])] @ lit [dq]"
  have "bt ?r ([dq] @ p @ [dq] @ rest) = bt ([grp Plus (NoneOf [Lit dq])] @ lit [dq]) (p @ dq # rest)"
    using bt_lit [of "[dq]" _ "p @ dq # rest"] by simp
  also have "\<dots> = Some (p, rest)"
    by (rule bt_plus_noneof [OF assms(5,6)])
  finally have m: "bt ?r ([dq] @ p @ [dq] @ rest) = Some (p, rest)" .
  have "search (lit key @ [ws] @ lit ''='' @ [ws] @ ?r)
          (pre @ key @ w1 @ ''='' @ w2 @ ([dq] @ p @ [dq] @ rest)) = Some p"
    by (rule search_at_key [OF assms(1-4) _ _ m])
       (simp_all add: space_reject_lit not_space_dq)
  then show ?thesis by simp
qed

lemma search_tsq_value:
  assumes "\<not> sublist ''regex'' pre"
    and "\<forall>x\<in>set w1. is_space x" and "\<forall>x\<in>set w2. is_space x"
    and "p \<noteq> []" and "sq \<notin> set p" and "CHR 0x0A \<notin> set p"
  shows "search re_regex_tsq (pre @ ''regex'' @ w1 @ ''='' @ w2 @ tsq @ p @ tsq @ rest) = Some p"
proof -
  let ?r = "lit tsq @ [grp PlusLazy (A Dot)] @ lit tsq"
  have "bt ?r (tsq @ p @ tsq @ rest) = bt ([grp PlusLazy (A Dot)] @ lit [sq, sq, sq]) (p @ [sq, sq, sq] @ rest)"
    using bt_lit [of tsq _ "p @ tsq @ rest"] by (simp add: tsq_def)
  also have "\<dots> = Some (p, rest)"
    by (rule bt_pluslazy_dot [OF assms(4-6)])
  finally have m: "bt ?r (tsq @ p @ tsq @ rest) = Some (p, rest)" .
  have "search (lit ''regex'' @ [ws] @ lit ''='' @ [ws] @ ?r)
          (pre @ ''regex'' @ w1 @ ''='' @ w2 @ (tsq @ p @ tsq @ rest)) = Some p"
    by (rule search_at_key [OF _ assms(1-3) _ _ m])
       (simp_all add: space_reject_lit not_space_sq tsq_def)
  then show ?thesis by (simp add: re_regex_tsq_def)
qed

lemma search_keywords_value:
  assumes "\<not> sublist ''keywords'' pre"
    and "\<forall>x\<in>set w1. is_space x" and "\<forall>x\<in>set w2. is_space x"
    and "body \<noteq> []" and "CHR '']'' \<notin> set body"
  shows "search re_keywords (pre @ ''keywords'' @ w1 @ ''='' @ w2 @ ''['' @ body @ '']'' @ post)
         = Some body"
proof -
  let ?r = "lit ''['' @ [grp Plus (NoneOf [Lit (CHR '']'')])] @ lit '']''"
  have "bt ?r (''['' @ body @ '']'' @ post)
        = bt ([grp Plus (NoneOf [Lit (CHR '']'')])] @ lit '']'') (body @ CHR '']'' # post)"
    using bt_lit [of "''[''" _ "body @ CHR '']'' # post"] by simp
  also have "\<dots> = Some (body, post)"
    by (rule bt_plus_noneof [OF assms(4,5)])
  finally have m: "bt ?r (''['' @ body @ '']'' @ post) = Some (body, post)" .
  have "search (lit ''keywords'' @ [ws] @ lit ''='' @ [ws] @ ?r)
          (pre @ ''keywords'' @ w1 @ ''='' @ w2 @ (''['' @ body @ '']'' @ post)) = Some body"
    by (rule search_at_key [OF _ assms(1-3) _ _ m])
       (simp_all add: space_reject_lit is_space_def)
  then show ?thesis by (simp add: re_keywords_def)
qed

lemma search_entropy_value:
  assumes "\<not> sublist ''entropy'' pre"
    and "\<forall>x\<in>set w1. is_space x" and "\<forall>x\<in>set w2. is_space x"
    and "p \<noteq> []" and "\<forall>x\<in>set p. is_digit x \<or> x = CHR ''.''"
    and "post = [] \<or> \<not> (is_digit (hd post) \<or> hd post = CHR ''.'')"
  shows "search re_entropy (pre @ ''entropy'' @ w1 @ ''='' @ w2 @ p @ post) = Some p"
proof -
  let ?c = "OneOf [Digit, Lit (CHR ''.'')]"
  have m: "bt [grp Plus ?c] (p @ post) = Some (p, post)"
    by (rule bt_plus_run [OF assms(4)]) (use assms(5,6) in auto)
  have sp: "bt [grp Plus ?c] (x # t) = None" if "is_space x" for x t
    using that by (auto simp: grp_def is_space_def is_digit_def)
  obtain x p' where "p = x # p'" using assms(4) by (cases p) auto
  with assms(5) have ns: "p @ post = [] \<or> \<not> is_space (hd (p @ post))"
    by (auto simp: is_space_def is_digit_def)
  have "search (lit ''entropy'' @ [ws] @ lit ''='' @ [ws] @ [grp Plus ?c])
          (pre @ ''entropy'' @ w1 @ ''='' @ w2 @ (p @ post)) = Some p"
    by (rule search_at_key [OF _ assms(1-3) sp ns m]) simp_all
  then show ?thesis by (simp add: re_entropy_def)
qed

subsection \<open>The loop\<close>

lemma block_step_acc:
  "block_step rules b = (case block_step [] b of Inl e \<Rightarrow> Inl e | Inr rs \<Rightarrow> Inr (rules @ rs))"
  by (simp add: block_step_def Let_def split: option.splits sum.splits)

lemma block_step_result:
  assumes "block_step rules b = Inr rules'"
  shows "rules' = rules \<or> (\<exists>r. rules' = rules @ [r] \<and> rule_id r \<noteq> [] \<and> regex r \<noteq> [])"
  using assms id_nonempty [of b]
  by (auto simp: block_step_def Let_def split: if_splits option.splits sum.splits)

lemma loop_acc:
  "loop rules bs = (case loop [] bs of Inl e \<Rightarrow> Inl e | Inr new \<Rightarrow> Inr (rules @ new))"
proof (induction bs arbitrary: rules)
  case Nil
  then show ?case by simp
next
  case (Cons b bs)
  show ?case
  proof (cases "block_step [] b")
    case (Inl e)
    then show ?thesis using block_step_acc [of rules b] by simp
  next
    case (Inr rs)
    then have "block_step rules b = Inr (rules @ rs)"
      using block_step_acc [of rules b] by simp
    then show ?thesis
      using Inr Cons.IH [of "rules @ rs"] Cons.IH [of rs]
      by (simp split: sum.splits)
  qed
qed

lemma loop_nonempty_fields:
  assumes "loop rules bs = Inr rs" and "\<forall>r\<in>set rules. rule_id r \<noteq> [] \<and> regex r \<noteq> []"
  shows "\<forall>r\<in>set rs. rule_id r \<noteq> [] \<and> regex r \<noteq> []"
  using assms
proof (induction bs arbitrary: rules)
  case Nil
  then show ?case by simp
next
  case (Cons b bs)
  from Cons.prems(1) obtain r1 where b: "block_step rules b = Inr r1" and l: "loop r1 bs = Inr rs"
    by (auto split: sum.splits)
  from block_step_result [OF b] Cons.prems(2)
  have "\<forall>r\<in>set r1. rule_id r \<noteq> [] \<and> regex r \<noteq> []" by auto
  from Cons.IH [OF l this] show ?case .
qed

subsection \<open>Splitting and joining\<close>

lemma split_from_nonempty: "split_from sep cur s \<noteq> []"
  by (induction sep cur s rule: split_from.induct) auto

lemma join_Cons: "xs \<noteq> [] \<Longrightarrow> join sep (x # xs) = x @ sep @ join sep xs"
  by (cases xs) auto

lemma join_split_from: "join sep (split_from sep cur s) = rev cur @ s"
proof (induction sep cur s rule: split_from.induct)
  case (1 sep cur)
  then show ?case by simp
next
  case (2 sep cur x xs)
  show ?case
  proof (cases "sep \<noteq> [] \<and> prefix sep (x # xs)")
    case True
    then obtain t where t: "x # xs = sep @ t" by (auto simp: prefix_def)
    then have d: "drop (length sep) (x # xs) = t" by simp
    from True have "split_from sep cur (x # xs) = rev cur # split_from sep [] t"
      by (simp add: d del: drop_Suc_Cons)
    moreover from 2 True have "join sep (split_from sep [] t) = t"
      by (simp add: d del: drop_Suc_Cons)
    ultimately show ?thesis
      by (simp add: join_Cons split_from_nonempty t)
  next
    case False
    with 2 show ?thesis by auto
  qed
qed

lemma split_from_absent: "\<not> sublist sep s \<Longrightarrow> split_from sep cur s = [rev cur @ s]"
proof (induction s arbitrary: cur)
  case Nil
  then show ?case by simp
next
  case (Cons x s)
  then have "\<not> prefix sep (x # s)" and "\<not> sublist sep s"
    by (auto simp: sublist_Cons_right)
  with Cons.IH [of "x # cur"] show ?case by simp
qed

lemma sublist_prefix_drop:
  assumes "sublist sep t" and "sep \<noteq> []"
  shows "\<exists>i<length t. prefix sep (drop i t)"
proof -
  from assms(1) obtain ps ss where t: "t = ps @ sep @ ss" by (auto simp: sublist_def)
  then have "prefix sep (drop (length ps) t)" by simp
  moreover have "length ps < length t" using assms(2) t by simp
  ultimately show ?thesis by blast
qed

lemma prefix_drop_append:
  assumes "prefix sep (drop i t)" and "i \<le> length t"
  shows "prefix sep (drop i (t @ s))"
  using assms by (simp add: prefix_def) (metis append.assoc)

lemma split_from_segments:
  assumes "sep \<noteq> []" and "\<forall>i<length cur. \<not> prefix sep (drop i (rev cur @ s))"
  shows "\<forall>p\<in>set (split_from sep cur s). \<not> sublist sep p"
  using assms
proof (induction sep cur s rule: split_from.induct)
  case (1 sep cur)
  have "\<not> sublist sep (rev cur)"
  proof
    assume "sublist sep (rev cur)"
    from sublist_prefix_drop [OF this 1(1)] 1(2) show False by auto
  qed
  then show ?case by simp
next
  case (2 sep cur x xs)
  have seg: "\<not> sublist sep (rev cur)"
  proof
    assume "sublist sep (rev cur)"
    from sublist_prefix_drop [OF this 2(3)]
    obtain i where i: "i < length cur" and p: "prefix sep (drop i (rev cur))" by auto
    from prefix_drop_append [OF p, of "x # xs"] i have "prefix sep (drop i (rev cur @ x # xs))"
      by simp
    with 2(4) i show False by blast
  qed
  show ?case
  proof (cases "sep \<noteq> [] \<and> prefix sep (x # xs)")
    case True
    have "\<forall>p\<in>set (split_from sep [] (drop (length sep) (x # xs))). \<not> sublist sep p"
      by (rule 2(1) [OF True 2(3)]) simp
    with True seg show ?thesis by (simp del: drop_Suc_Cons)
  next
    case False
    have "\<forall>i<length (x # cur). \<not> prefix sep (drop i (rev (x # cur) @ xs))"
    proof (intro allI impI)
      fix i assume "i < length (x # cur)"
      then consider "i < length cur" | "i = length cur" by force
      then show "\<not> prefix sep (drop i (rev (x # cur) @ xs))"
      proof cases
        case 1
        with 2(4) show ?thesis by simp
      next
        case 2
        with False \<open>sep \<noteq> []\<close> show ?thesis by simp
      qed
    qed
    from 2(2) [OF False 2(3) this] False show ?thesis by auto
  qed
qed

subsection \<open>The result of the loop\<close>

lemma loop_result:
  "loop [] bs = (if list_ex (\<lambda>b. block_step [] b = Inl ValueError) bs then Inl ValueError
                 else Inr (concat (map block_records bs)))"
proof (induction bs)
  case Nil
  then show ?case by simp
next
  case (Cons b bs)
  show ?case
  proof (cases "block_step [] b")
    case (Inl e)
    then show ?thesis by (cases e) simp
  next
    case (Inr rs)
    then have "block_records b = rs" by (simp add: block_records_def)
    with Inr Cons loop_acc [of rs bs] show ?thesis by (simp split: sum.splits)
  qed
qed

subsection \<open>More on the patterns of the fields\<close>

lemma search_tdq_value:
  assumes "\<not> sublist ''regex'' pre"
    and "\<forall>x\<in>set w1. is_space x" and "\<forall>x\<in>set w2. is_space x"
    and "p \<noteq> []" and "dq \<notin> set p" and "CHR 0x0A \<notin> set p"
  shows "search re_regex_tdq (pre @ ''regex'' @ w1 @ ''='' @ w2 @ tdq @ p @ tdq @ rest) = Some p"
proof -
  let ?r = "lit tdq @ [grp PlusLazy (A Dot)] @ lit tdq"
  have "bt ?r (tdq @ p @ tdq @ rest) = bt ([grp PlusLazy (A Dot)] @ lit [dq, dq, dq]) (p @ [dq, dq, dq] @ rest)"
    using bt_lit [of tdq _ "p @ tdq @ rest"] by (simp add: tdq_def)
  also have "\<dots> = Some (p, rest)"
    by (rule bt_pluslazy_dot [OF assms(4-6)])
  finally have m: "bt ?r (tdq @ p @ tdq @ rest) = Some (p, rest)" .
  have "search (lit ''regex'' @ [ws] @ lit ''='' @ [ws] @ ?r)
          (pre @ ''regex'' @ w1 @ ''='' @ w2 @ (tdq @ p @ tdq @ rest)) = Some p"
    by (rule search_at_key [OF _ assms(1-3) _ _ m])
       (simp_all add: space_reject_lit not_space_dq tdq_def)
  then show ?thesis by (simp add: re_regex_tdq_def)
qed

lemma search_regex_dq_value:
  assumes "\<not> sublist ''regex'' pre"
    and "\<forall>x\<in>set w1. is_space x" and "\<forall>x\<in>set w2. is_space x"
    and "p \<noteq> []" and "dq \<notin> set p"
  shows "search re_regex_dq (pre @ ''regex'' @ w1 @ ''='' @ w2 @ [dq] @ p @ [dq] @ rest) = Some p"
  unfolding re_regex_dq_def
  by (rule search_quoted_value [OF _ assms]) simp

lemma search_id_value:
  assumes "\<not> sublist ''id'' pre"
    and "\<forall>x\<in>set w1. is_space x" and "\<forall>x\<in>set w2. is_space x"
    and "p \<noteq> []" and "dq \<notin> set p"
  shows "search re_id (pre @ ''id'' @ w1 @ ''='' @ w2 @ [dq] @ p @ [dq] @ rest) = Some p"
  unfolding re_id_def
  by (rule search_quoted_value [OF _ assms]) simp

lemma search_past_empty_value:
  assumes "hd key \<notin> set (tl key)" and "\<not> sublist key pre" and "key \<noteq> []"
    and "\<not> is_space (hd key)" and "hd key \<noteq> CHR ''=''" and "hd key \<noteq> dq"
    and "\<forall>x\<in>set w1. is_space x" and "\<forall>x\<in>set w2. is_space x"
    and "\<And>x t. is_space x \<Longrightarrow> bt r (x # t) = None"
    and "bt r ([dq, dq] @ post) = None"
  shows "search (lit key @ [ws] @ lit ''='' @ [ws] @ r) (pre @ key @ w1 @ ''='' @ w2 @ [dq, dq] @ post)
         = search (lit key @ [ws] @ lit ''='' @ [ws] @ r) post"
proof -
  let ?p = "lit key @ [ws] @ lit ''='' @ [ws] @ r"
  obtain c k where key: "key = c # k" using assms(3) by (cases key) auto
  have ns: "[dq, dq] @ post = [] \<or> \<not> is_space (hd ([dq, dq] @ post))"
    by (simp add: not_space_dq)
  have "search ?p (pre @ key @ w1 @ ''='' @ w2 @ [dq, dq] @ post) = search ?p ([dq, dq] @ post)"
    by (rule search_past_key [OF assms(1-5,7-9) ns assms(10)])
  also have "\<dots> = search ?p post"
    unfolding key using assms(6)
    by (intro search_skip_chars) (simp add: key)
  finally show ?thesis .
qed

lemma search_id_empty_value:
  assumes "\<not> sublist ''id'' pre" and "\<forall>x\<in>set w1. is_space x" and "\<forall>x\<in>set w2. is_space x"
  shows "search re_id (pre @ ''id'' @ w1 @ ''='' @ w2 @ [dq, dq] @ post) = search re_id post"
  unfolding re_id_def
  by (rule search_past_empty_value [OF _ assms(1) _ _ _ _ assms(2,3)])
     (auto simp: is_space_def dq_def lit_def grp_def)

lemma search_regex_dq_empty_value:
  assumes "\<not> sublist ''regex'' pre" and "\<forall>x\<in>set w1. is_space x" and "\<forall>x\<in>set w2. is_space x"
  shows "search re_regex_dq (pre @ ''regex'' @ w1 @ ''='' @ w2 @ [dq, dq] @ post)
         = search re_regex_dq post"
  unfolding re_regex_dq_def
  by (rule search_past_empty_value [OF _ assms(1) _ _ _ _ assms(2,3)])
     (auto simp: is_space_def dq_def lit_def grp_def)

lemma search_regex_tsq_empty_value:
  assumes "\<not> sublist ''regex'' pre" and "\<forall>x\<in>set w1. is_space x" and "\<forall>x\<in>set w2. is_space x"
  shows "search re_regex_tsq (pre @ ''regex'' @ w1 @ ''='' @ w2 @ [dq, dq] @ post)
         = search re_regex_tsq post"
  unfolding re_regex_tsq_def
  by (rule search_past_empty_value [OF _ assms(1) _ _ _ _ assms(2,3)])
     (auto simp: is_space_def dq_def sq_def tsq_def lit_def grp_def)

lemma search_regex_tdq_empty_value:
  assumes "\<not> sublist ''regex'' pre" and "\<forall>x\<in>set w1. is_space x" and "\<forall>x\<in>set w2. is_space x"
    and "\<not> prefix [dq] post"
  shows "search re_regex_tdq (pre @ ''regex'' @ w1 @ ''='' @ w2 @ [dq, dq] @ post)
         = search re_regex_tdq post"
proof -
  have "bt (lit tdq @ [grp PlusLazy (A Dot)] @ lit tdq) ([dq, dq] @ post) = None"
    using assms(4) by (cases post) (auto simp: tdq_def lit_def)
  then show ?thesis
    unfolding re_regex_tdq_def
    by (intro search_past_empty_value [OF _ assms(1) _ _ _ _ assms(2,3)])
       (auto simp: is_space_def dq_def tdq_def lit_def)
qed

lemma get_regex_match_first:
  "get_regex_match block = first_match [re_regex_tsq, re_regex_tdq, re_regex_dq] block"
  by (simp add: get_regex_match_def Let_def split: option.splits)

lemma get_regex_match_None:
  "get_regex_match block = None \<longleftrightarrow>
     search re_regex_tsq block = None \<and> search re_regex_tdq block = None
     \<and> search re_regex_dq block = None"
  by (auto simp: get_regex_match_def Let_def)

lemma block_step_no_id: "search re_id b = None \<Longrightarrow> block_step rules b = Inr rules"
  by (simp add: block_step_def)

lemma block_step_no_pattern:
  assumes "get_regex_pattern b = []"
  shows "block_step rules b = Inr rules \<or> block_step rules b = Inl ValueError"
proof (cases "get_entropy b")
  case (Inl e)
  then show ?thesis
    by (cases e) (simp add: block_step_def assms Let_def split: option.splits)
next
  case (Inr v)
  then show ?thesis
    by (simp add: block_step_def assms Let_def split: option.splits)
qed

lemma get_regex_pattern_tsq:
  "search re_regex_tsq block = Some g \<Longrightarrow> get_regex_pattern block = g"
  by (simp add: get_regex_pattern_def get_regex_match_def)

lemma get_regex_pattern_tdq:
  "search re_regex_tsq block = None \<Longrightarrow> search re_regex_tdq block = Some g \<Longrightarrow>
   get_regex_pattern block = g"
  by (simp add: get_regex_pattern_def get_regex_match_def)

lemma get_regex_pattern_dq:
  "search re_regex_tsq block = None \<Longrightarrow> search re_regex_tdq block = None \<Longrightarrow>
   search re_regex_dq block = Some g \<Longrightarrow> get_regex_pattern block = g"
  by (simp add: get_regex_pattern_def get_regex_match_def)

lemma set_kw_body:
  "set (kw_body ks) = (\<Union>(sp, k)\<in>set ks. set sp \<union> set k \<union> {dq})"
  by (induction ks) (auto simp: kw_body_def quoted_def)

lemma get_entropy_absent: "\<not> sublist ''entropy'' block \<Longrightarrow> get_entropy block = Inr 0"
proof -
  assume "\<not> sublist ''entropy'' block"
  then have "search re_entropy block = None"
    unfolding re_entropy_def by (rule search_absent)
  then show ?thesis by (simp add: get_entropy_def)
qed

lemma get_entropy_value:
  assumes "\<not> sublist ''entropy'' pre"
    and "\<forall>x\<in>set w1. is_space x" and "\<forall>x\<in>set w2. is_space x"
    and "p \<noteq> []" and "\<forall>x\<in>set p. is_digit x \<or> x = CHR ''.''"
    and "post = [] \<or> \<not> (is_digit (hd post) \<or> hd post = CHR ''.'')"
  shows "get_entropy (pre @ ''entropy'' @ w1 @ ''='' @ w2 @ p @ post) = float p"
  using search_entropy_value [OF assms] by (simp only: get_entropy_def Let_def option.case)

lemma float_six: "float ''6.0'' = Inr 6"
  by code_simp

subsection \<open>When \<open>float\<close> raises\<close>

lemma count_dot_digits: "\<forall>x\<in>set xs. is_digit x \<Longrightarrow> count_list xs (CHR ''.'') = 0"
  by (induction xs) (auto simp: is_digit_def)

lemma count_dot_zero:
  "\<forall>x\<in>set xs. is_digit x \<or> x = CHR ''.'' \<Longrightarrow> count_list xs (CHR ''.'') = 0 \<longleftrightarrow> list_all is_digit xs"
  by (induction xs) (auto simp: is_digit_def)

lemma float_raises_iff:
  assumes "\<forall>x\<in>set s. is_digit x \<or> x = CHR ''.''"
  shows "float s = Inl ValueError \<longleftrightarrow> (\<forall>x\<in>set s. \<not> is_digit x) \<or> 2 \<le> count_list s (CHR ''.'')"
proof -
  define ip where "ip = takeWhile is_digit s"
  define r where "r = dropWhile is_digit s"
  have s: "s = ip @ r" by (simp add: ip_def r_def)
  have fl: "float s = (case r of
           [] \<Rightarrow> if ip = [] then Inl ValueError else Inr (real (dec ip))
         | d # fp \<Rightarrow>
             if d = CHR ''.'' \<and> list_all is_digit fp \<and> (ip \<noteq> [] \<or> fp \<noteq> [])
             then Inr (real (dec ip) + real (dec fp) / 10 ^ length fp)
             else Inl ValueError)"
    unfolding float_def Let_def ip_def r_def ..
  have ipd: "\<forall>x\<in>set ip. is_digit x" by (auto simp: ip_def dest: set_takeWhileD)
  have cnt: "count_list s (CHR ''.'') = count_list r (CHR ''.'')"
    using count_dot_digits [OF ipd] by (simp add: s)
  have digs: "(\<forall>x\<in>set s. \<not> is_digit x) \<longleftrightarrow> ip = [] \<and> (\<forall>x\<in>set r. \<not> is_digit x)"
    using ipd by (cases ip) (auto simp: s)
  show ?thesis
  proof (cases r)
    case Nil
    then show ?thesis using cnt digs by (simp add: fl)
  next
    case (Cons d fp)
    then have "\<not> is_digit d" using hd_dropWhile [of is_digit s] by (auto simp: r_def)
    moreover have "d \<in> set s" and fps: "set fp \<subseteq> set s"
      using Cons by (auto simp: s)
    ultimately have d: "d = CHR ''.''" using assms by auto
    from fps assms have fpc: "\<forall>x\<in>set fp. is_digit x \<or> x = CHR ''.''" by auto
    have nd: "\<not> is_digit (CHR ''.'')" by (simp add: is_digit_def)
    show ?thesis
    proof (cases "list_all is_digit fp")
      case True
      then have "count_list fp (CHR ''.'') = 0" using count_dot_zero [OF fpc] by simp
      moreover from True have "(\<forall>x\<in>set fp. \<not> is_digit x) \<longleftrightarrow> fp = []"
        by (cases fp) (auto simp: list_all_iff)
      ultimately show ?thesis
        using Cons d True cnt digs nd by (auto simp: fl)
    next
      case False
      then have "count_list fp (CHR ''.'') \<noteq> 0" using count_dot_zero [OF fpc] by simp
      then show ?thesis
        using Cons d False cnt by (auto simp: fl)
    qed
  qed
qed

subsection \<open>When the loop body raises and when it gives a record\<close>

lemma all_space_dropWhile: "(\<forall>x\<in>set (dropWhile is_space s). is_space x) \<longleftrightarrow> (\<forall>x\<in>set s. is_space x)"
proof (induction s)
  case Nil
  show ?case by simp
next
  case (Cons a s)
  show ?case
  proof (cases "is_space a")
    case True
    with Cons show ?thesis by simp
  next
    case False
    then show ?thesis by auto
  qed
qed

lemma strip_empty_iff: "strip s = [] \<longleftrightarrow> (\<forall>x\<in>set s. is_space x)"
  unfolding strip_def rev_is_Nil_conv dropWhile_eq_Nil_conv set_rev
  by (rule all_space_dropWhile)

lemma search_first_char_absent: "c \<notin> set s \<Longrightarrow> search (lit (c # k) @ r) s = None"
  by (induction s) (auto simp: lit_def)

lemma blank_no_id: "strip b = [] \<Longrightarrow> search re_id b = None"
proof -
  assume "strip b = []"
  then have "\<forall>x\<in>set b. is_space x" by (simp only: strip_empty_iff)
  moreover have "\<not> is_space (CHR ''i'')" by (simp add: is_space_def)
  ultimately have "CHR ''i'' \<notin> set b" by blast
  then have "search (lit (CHR ''i'' # ''d'') @ ([ws] @ lit ''='' @ [ws] @ lit [dq]
           @ [grp Plus (NoneOf [Lit dq])] @ lit [dq])) b = None"
    by (rule search_first_char_absent)
  then show ?thesis by (simp only: re_id_def)
qed

lemma pattern_nonempty: "get_regex_match b = Some g \<Longrightarrow> g \<noteq> []"
proof -
  assume "get_regex_match b = Some g"
  then consider "search re_regex_tsq b = Some g" | "search re_regex_tdq b = Some g"
    | "search re_regex_dq b = Some g"
    by (auto simp: get_regex_match_def Let_def split: if_splits)
  then show ?thesis
  proof cases
    case 1
    then obtain u rest where "bt re_regex_tsq u = Some (g, rest)"
      using search_Some_bt by blast
    from bt_group_length [OF this] show ?thesis
      by (auto simp: re_regex_tsq_def lit_def ws_def grp_def)
  next
    case 2
    then obtain u rest where "bt re_regex_tdq u = Some (g, rest)"
      using search_Some_bt by blast
    from bt_group_length [OF this] show ?thesis
      by (auto simp: re_regex_tdq_def lit_def ws_def grp_def)
  next
    case 3
    then obtain u rest where "bt re_regex_dq u = Some (g, rest)"
      using search_Some_bt by blast
    from bt_group_length [OF this] show ?thesis
      by (auto simp: re_regex_dq_def lit_def ws_def grp_def)
  qed
qed

lemma block_step_raises_iff:
  "block_step rules b = Inl ValueError \<longleftrightarrow>
     search re_id b \<noteq> None \<and>
     (\<exists>g. search re_entropy b = Some g \<and>
          ((\<forall>x\<in>set g. \<not> is_digit x) \<or> 2 \<le> count_list g (CHR ''.'')))"
proof (cases "search re_entropy b")
  case None
  then show ?thesis
    by (auto simp: block_step_def get_entropy_def Let_def split: option.splits)
next
  case (Some g)
  from entropy_capture_chars [OF Some] have "\<forall>x\<in>set g. is_digit x \<or> x = CHR ''.''" by simp
  from float_raises_iff [OF this] Some blank_no_id [of b] show ?thesis
    by (cases "float g") (auto simp: block_step_def get_entropy_def Let_def split: option.splits)
qed

lemma block_step_record_iff:
  assumes "block_step rules b \<noteq> Inl ValueError"
  shows "(\<exists>r. block_step rules b = Inr (rules @ [r])) \<longleftrightarrow>
         search re_id b \<noteq> None \<and> get_regex_match b \<noteq> None"
proof -
  have p: "get_regex_pattern b \<noteq> [] \<longleftrightarrow> get_regex_match b \<noteq> None"
    using pattern_nonempty [of b] by (auto simp: get_regex_pattern_def split: option.splits)
  obtain rs where r: "block_step rules b = Inr rs"
    using assms by (cases "block_step rules b") (auto intro: error.exhaust)
  show ?thesis
  proof (cases "search re_id b")
    case None
    then show ?thesis by (simp add: block_step_def)
  next
    case (Some rid)
    with blank_no_id [of b] have "strip b \<noteq> []" by auto
    with Some r p show ?thesis
      by (auto simp: block_step_def Let_def split: sum.splits)
  qed
qed

subsection \<open>Matches consume input\<close>

text \<open>
  A match of the pattern given to \<open>findall\<close> is never empty.
\<close>

lemma bt_consumes:
  "bt p s = Some (g, rest) \<Longrightarrow> length rest + sum_list (map takes p) \<le> length s"
proof (induction p s arbitrary: g rest rule: bt.induct)
  case (1 s)
  then show ?case by simp
qed (fastforce simp: keep_def split: if_splits option.splits)+

lemma quoted_consumes: "bt re_quoted s = Some (g, rest) \<Longrightarrow> length rest < length s"
  using bt_consumes [of re_quoted s g rest] by (simp add: re_quoted_def lit_def grp_def)

subsection \<open>The leftmost match\<close>

lemma search_not_starts_in: "\<not> starts_in p pre s \<Longrightarrow> search p (pre @ s) = search p s"
proof (induction pre)
  case Nil
  then show ?case by simp
next
  case (Cons x pre)
  then have "bt p (x # pre @ s) = None" and "\<not> starts_in p pre s"
    unfolding starts_in.simps by blast+
  with Cons.IH show ?case by simp
qed

lemma starts_in_no_key:
  assumes "hd key \<notin> set (tl key)" and "\<not> sublist key pre"
  shows "\<not> starts_in (lit key @ r) pre (key @ s)"
  using assms(2)
proof (induction pre)
  case Nil
  then show ?case by simp
next
  case (Cons x pre)
  then have ns: "\<not> sublist key pre" and np: "\<not> prefix key (x # pre)"
    by (auto simp: sublist_Cons_right)
  have "bt (lit key @ r) (x # pre @ key @ s) = None"
  proof (rule ccontr)
    assume "bt (lit key @ r) (x # pre @ key @ s) \<noteq> None"
    then have "prefix key ((x # pre) @ key @ s)"
      using bt_lit_prefix by fastforce
    then have "prefix key (x # pre)"
      using key_no_overlap [OF assms(1)] by blast
    with np show False by simp
  qed
  then show ?case using Cons.IH [OF ns] by simp
qed









lemma regex_tsq_at:
  assumes "\<forall>x\<in>set w1. is_space x" and "\<forall>x\<in>set w2. is_space x"
    and "p \<noteq> []" and "sq \<notin> set p" and "CHR 0x0A \<notin> set p"
    and "\<not> starts_in re_regex_tsq pre (regex_key w1 w2 tsq p @ rest)"
  shows "search re_regex_tsq (pre @ regex_key w1 w2 tsq p @ rest) = Some p"
proof -
  have "\<not> sublist ''regex'' []" by simp
  from search_tsq_value [OF this assms(1-5), of rest]
  have "search re_regex_tsq (regex_key w1 w2 tsq p @ rest) = Some p"
    by (simp add: regex_key_def)
  with search_not_starts_in [OF assms(6)] show ?thesis by simp
qed

lemma regex_tdq_at:
  assumes "\<forall>x\<in>set w1. is_space x" and "\<forall>x\<in>set w2. is_space x"
    and "p \<noteq> []" and "dq \<notin> set p" and "CHR 0x0A \<notin> set p"
    and "\<not> starts_in re_regex_tdq pre (regex_key w1 w2 tdq p @ rest)"
  shows "search re_regex_tdq (pre @ regex_key w1 w2 tdq p @ rest) = Some p"
proof -
  have "\<not> sublist ''regex'' []" by simp
  from search_tdq_value [OF this assms(1-5), of rest]
  have "search re_regex_tdq (regex_key w1 w2 tdq p @ rest) = Some p"
    by (simp add: regex_key_def)
  with search_not_starts_in [OF assms(6)] show ?thesis by simp
qed

lemma regex_dq_at:
  assumes "\<forall>x\<in>set w1. is_space x" and "\<forall>x\<in>set w2. is_space x"
    and "p \<noteq> []" and "dq \<notin> set p"
    and "\<not> starts_in re_regex_dq pre (regex_key w1 w2 [dq] p @ rest)"
  shows "search re_regex_dq (pre @ regex_key w1 w2 [dq] p @ rest) = Some p"
proof -
  have "\<not> sublist ''regex'' []" by simp
  from search_regex_dq_value [OF this assms(1-4), of rest]
  have "search re_regex_dq (regex_key w1 w2 [dq] p @ rest) = Some p"
    by (simp add: regex_key_def)
  with search_not_starts_in [OF assms(5)] show ?thesis by simp
qed


lemma get_regex_pattern_none:
  "search re_regex_tsq block = None \<Longrightarrow> search re_regex_tdq block = None \<Longrightarrow>
   search re_regex_dq block = None \<Longrightarrow> get_regex_pattern block = []"
  by (simp add: get_regex_pattern_def get_regex_match_def)


subsection \<open>Segmentation and keyword lists\<close>

text \<open>
  The split never raises, joining the segments with the marker gives the input back, no
  segment contains the marker, and the function returns the records of the blocks after
  the first segment, in their order, when the loop body raises on none of them; an input
  without the marker gives the empty list.
\<close>

lemma segmentation_and_order:
  "split content ''[[rules]]'' = Inr (split_from ''[[rules]]'' [] content)
   \<and> join ''[[rules]]'' (split_from ''[[rules]]'' [] content) = content
   \<and> (\<forall>p\<in>set (split_from ''[[rules]]'' [] content). \<not> sublist ''[[rules]]'' p)
   \<and> parse_gitleaks content =
       (if list_ex (\<lambda>b. block_step [] b = Inl ValueError)
             (drop 1 (split_from ''[[rules]]'' [] content))
        then Inl ValueError
        else Inr (concat (map block_records (drop 1 (split_from ''[[rules]]'' [] content)))))
   \<and> (\<not> sublist ''[[rules]]'' content \<longrightarrow> parse_gitleaks content = Inr [])"
proof -
  have seg: "\<forall>p\<in>set (split_from ''[[rules]]'' [] content). \<not> sublist ''[[rules]]'' p"
    by (rule split_from_segments) simp_all
  have res: "parse_gitleaks content =
       (if list_ex (\<lambda>b. block_step [] b = Inl ValueError)
             (drop 1 (split_from ''[[rules]]'' [] content))
        then Inl ValueError
        else Inr (concat (map block_records (drop 1 (split_from ''[[rules]]'' [] content)))))"
    unfolding parse_gitleaks_def split_def by (simp only: loop_result) simp
  have "parse_gitleaks content = Inr []" if "\<not> sublist ''[[rules]]'' content"
    using split_from_absent [OF that, of "[]"] by (simp add: parse_gitleaks_def split_def)
  with seg res show ?thesis
    by (simp add: split_def join_split_from)
qed

text \<open>
  A bracketed list of non-empty double-quoted strings, where neither the strings nor the
  text between them contain a double quote or a closing bracket, gives these strings in
  their order.
\<close>

lemma keywords_in_order:
  assumes "\<forall>x\<in>set w1. is_space x" and "\<forall>x\<in>set w2. is_space x"
  shows \<open>(\<not> sublist ''keywords'' pre
          \<and> (\<forall>(sp, k)\<in>set ks. k \<noteq> [] \<and> dq \<notin> set sp \<and> dq \<notin> set k
                               \<and> CHR '']'' \<notin> set sp \<and> CHR '']'' \<notin> set k)
          \<and> dq \<notin> set t \<and> CHR '']'' \<notin> set t \<and> kw_body ks @ t \<noteq> [] \<longrightarrow>
           get_keywords (pre @ ''keywords'' @ w1 @ ''='' @ w2 @ ''['' @ (kw_body ks @ t) @ '']'' @ post)
             = map snd ks)
        \<and> get_keywords ''keywords = ["a", "b", "c"]'' = [''a'', ''b'', ''c'']
        \<and> (\<not> sublist ''keywords'' block \<longrightarrow> get_keywords block = [])
        \<and> (\<not> sublist ''keywords'' pre \<longrightarrow>
             get_keywords (pre @ ''keywords'' @ w1 @ ''='' @ w2 @ ''[]'' @ post) = get_keywords post)\<close>
proof (intro conjI impI)
  let ?body = "kw_body ks @ t"
  assume a: "\<not> sublist ''keywords'' pre
          \<and> (\<forall>(sp, k)\<in>set ks. k \<noteq> [] \<and> dq \<notin> set sp \<and> dq \<notin> set k
                               \<and> CHR '']'' \<notin> set sp \<and> CHR '']'' \<notin> set k)
          \<and> dq \<notin> set t \<and> CHR '']'' \<notin> set t \<and> kw_body ks @ t \<noteq> []"
  then have "CHR '']'' \<notin> set ?body"
    by (auto simp: set_kw_body dq_def)
  with a have "search re_keywords (pre @ ''keywords'' @ w1 @ ''='' @ w2 @ ''['' @ ?body @ '']'' @ post)
               = Some ?body"
    by (intro search_keywords_value assms) simp_all
  moreover from a have "findall re_quoted ?body = map snd ks"
    by (intro findall_kw_body) auto
  ultimately show "get_keywords (pre @ ''keywords'' @ w1 @ ''='' @ w2 @ ''['' @ ?body @ '']'' @ post)
                   = map snd ks"
    by (simp only: get_keywords_def Let_def option.case)
next
  show \<open>get_keywords ''keywords = ["a", "b", "c"]'' = [''a'', ''b'', ''c'']\<close>
    by code_simp
next
  assume "\<not> sublist ''keywords'' block"
  then have "search re_keywords block = None"
    unfolding re_keywords_def by (rule search_absent)
  then show "get_keywords block = []"
    by (simp add: get_keywords_def)
next
  assume a: "\<not> sublist ''keywords'' pre"
  have "search re_keywords (pre @ ''keywords'' @ w1 @ ''='' @ w2 @ ''[]'' @ post)
        = search re_keywords (''[]'' @ post)"
    unfolding re_keywords_def
    by (rule search_past_key [OF _ a _ _ _ assms]) (auto simp: is_space_def lit_def grp_def)
  also have "\<dots> = search re_keywords post"
    by (simp add: re_keywords_def lit_def)
  finally show "get_keywords (pre @ ''keywords'' @ w1 @ ''='' @ w2 @ ''[]'' @ post) = get_keywords post"
    by (simp only: get_keywords_def)
qed

section \<open>Properties\<close>

subsection \<open>The function raises on some inputs\<close>

text \<open>
  Claim C1 says that extraction returns a list of rule records for every input string
  and never raises. The pattern for the entropy value, \<^verbatim>\<open>[\d.]+\<close>, also captures
  texts such as \<open>...\<close> that \<open>float\<close> rejects, and the call of \<open>float\<close> is not guarded:
  on the text below, a block whose description mentions \<open>entropy = ...\<close>, the function
  raises \<open>ValueError\<close> and returns no list.
\<close>

theorem parse_gitleaks_raises:
  \<open>parse_gitleaks
     ''[[rules]]\<newline>id = "a"\<newline>description = "entropy = ..."\<newline>regex = "x"\<newline>''
   = Inl ValueError\<close>
  by code_simp

subsection \<open>The records that are returned\<close>

text \<open>
  Claim C2: every record in the list that \<open>parse_gitleaks\<close> returns has a non-empty
  identifier and a non-empty pattern, whatever the input. The identifier is group 1 of
  the \<open>id\<close> pattern, whose \<^verbatim>\<open>[^"]+\<close> takes at least one character, and a record is
  appended only under \<open>if regex_pattern\<close>.
\<close>

theorem records_nonempty:
  assumes "parse_gitleaks content = Inr rules" and "r \<in> set rules"
  shows "rule_id r \<noteq> [] \<and> regex r \<noteq> []"
proof -
  from assms(1) have "loop [] (drop 1 (split_from ''[[rules]]'' [] content)) = Inr rules"
    by (simp add: parse_gitleaks_def split_def)
  from loop_nonempty_fields [OF this] assms(2) show ?thesis by simp
qed

theorem records_nonempty_witness:
  \<open>parse_gitleaks ''[[rules]]\<newline>id = "a"\<newline>regex = "x"\<newline>''
     = Inr [\<lparr>rule_id = ''a'', description = [], regex = ''x'', rule_keywords = [], entropy = 0\<rparr>]
   \<and> rule_id \<lparr>rule_id = ''a'', description = [], regex = ''x'', rule_keywords = [], entropy = 0\<rparr> \<noteq> []
   \<and> regex \<lparr>rule_id = ''a'', description = [], regex = ''x'', rule_keywords = [], entropy = 0\<rparr> \<noteq> []\<close>
proof -
  have h: \<open>parse_gitleaks ''[[rules]]\<newline>id = "a"\<newline>regex = "x"\<newline>''
     = Inr [\<lparr>rule_id = ''a'', description = [], regex = ''x'', rule_keywords = [], entropy = 0\<rparr>]\<close>
    by code_simp
  from records_nonempty [OF h] h show ?thesis by simp
qed

subsection \<open>The entropy value\<close>

text \<open>
  Claim C3 says that the entropy value is a numeral with at most one decimal point and
  that the field is 0.0 when the key is absent or its value cannot be parsed. An absent
  key gives 0.0 (lemma \<open>get_entropy_absent\<close>) and \<open>6.0\<close> gives 6.0 (lemmas
  \<open>get_entropy_value\<close>, \<open>float_six\<close>), but the pattern captures any run of digits and
  dots, and a run that \<open>float\<close> cannot parse, such as \<open>1.2.3\<close>, raises \<open>ValueError\<close>
  instead of giving 0.0 (lemma \<open>float_raises_iff\<close> says for which runs).
\<close>

theorem entropy_unparsable_raises:
  \<open>get_entropy ''\<newline>id = "a"\<newline>regex = "x"\<newline>entropy = 1.2.3\<newline>'' = Inl ValueError
   \<and> parse_gitleaks ''[[rules]]\<newline>id = "a"\<newline>regex = "x"\<newline>entropy = 1.2.3\<newline>'' = Inl ValueError\<close>
  by code_simp

subsection \<open>Which blocks give a record\<close>

text \<open>
  Claim C6 says that a block gives a record if and only if the identifier and the pattern
  are both found, and that extraction goes on with the next block otherwise. This holds
  for the blocks on which the loop body does not raise (lemma \<open>block_step_record_iff\<close>).
  On the first block below the identifier and the pattern are both found, yet no record
  is produced, because the entropy pattern captures the dot of the pattern text and
  \<open>float\<close> raises; on the second input the first block has no pattern, and extraction
  does not go on to the second block but raises.
\<close>

theorem record_not_produced:
  \<open>search re_id (''\<newline>id = "a"\<newline>regex = '' @ tsq @ ''entropy=.+'' @ tsq @ ''\<newline>'') = Some ''a''
   \<and> get_regex_match (''\<newline>id = "a"\<newline>regex = '' @ tsq @ ''entropy=.+'' @ tsq @ ''\<newline>'')
       = Some ''entropy=.+''
   \<and> parse_gitleaks (''[[rules]]\<newline>id = "a"\<newline>regex = '' @ tsq @ ''entropy=.+'' @ tsq @ ''\<newline>'')
       = Inl ValueError
   \<and> parse_gitleaks
        ''[[rules]]\<newline>id = "a"\<newline>description = "entropy=.."\<newline>[[rules]]\<newline>id = "b"\<newline>regex = "x"\<newline>''
       = Inl ValueError\<close>
  by code_simp

subsection \<open>Segmentation and order\<close>

text \<open>
  Claim C8 says that extraction returns the successfully extracted records in the order
  of their blocks. Splitting and order are as the claim says (lemma
  \<open>segmentation_and_order\<close>), but a record that has been extracted is lost when a later
  block makes \<open>float\<close> raise: below, the first block gives a record, the entropy
  pattern captures \<open>.\<close> in the second block, and the function returns nothing.
\<close>

theorem extracted_record_not_returned:
  \<open>block_step [] ''id="a"regex="x"''
     = Inr [\<lparr>rule_id = ''a'', description = [], regex = ''x'', rule_keywords = [], entropy = 0\<rparr>]
   \<and> parse_gitleaks ''[[rules]]id="a"regex="x"[[rules]]id="b"regex="y"entropy=.''
     = Inl ValueError\<close>
  by code_simp

subsection \<open>The pattern field\<close>

text \<open>
  Claim C5: the pattern is looked for in three forms, in this order: between triple
  single quotes, between triple double quotes, between double quotes; the first form
  that matches anywhere in the block is used. \<open>get_regex_match\<close> is \<open>first_match\<close> on the
  three patterns in that order; each form returns the value at its leftmost key (the key
  before which no match of the form starts), the second only when the first matches
  nowhere in the block, the third only when the first two match nowhere; when no form
  matches the pattern is empty. A value between triple single quotes is returned whole,
  double quotes included.
\<close>

theorem pattern_fallback_order:
  \<open>get_regex_match block = first_match [re_regex_tsq, re_regex_tdq, re_regex_dq] block
   \<and> get_regex_pattern block
       = (case first_match [re_regex_tsq, re_regex_tdq, re_regex_dq] block of
            Some g \<Rightarrow> g | None \<Rightarrow> [])
   \<and> get_regex_pattern (''regex = '' @ tsq @ ''foo"bar'' @ tsq) = ''foo"bar''
   \<and> get_regex_pattern (''regex = '' @ tdq @ ''abc'' @ tdq) = ''abc''
   \<and> get_regex_pattern ''regex = "abc"'' = ''abc''
   \<and> ((\<forall>x\<in>set w1. is_space x) \<and> (\<forall>x\<in>set w2. is_space x) \<and> p \<noteq> [] \<longrightarrow>
        (sq \<notin> set p \<and> CHR 0x0A \<notin> set p
         \<and> \<not> starts_in re_regex_tsq pre (regex_key w1 w2 tsq p @ rest) \<longrightarrow>
           get_regex_pattern (pre @ regex_key w1 w2 tsq p @ rest) = p)
      \<and> (dq \<notin> set p \<and> CHR 0x0A \<notin> set p
         \<and> search re_regex_tsq (pre @ regex_key w1 w2 tdq p @ rest) = None
         \<and> \<not> starts_in re_regex_tdq pre (regex_key w1 w2 tdq p @ rest) \<longrightarrow>
           get_regex_pattern (pre @ regex_key w1 w2 tdq p @ rest) = p)
      \<and> (dq \<notin> set p
         \<and> search re_regex_tsq (pre @ regex_key w1 w2 [dq] p @ rest) = None
         \<and> search re_regex_tdq (pre @ regex_key w1 w2 [dq] p @ rest) = None
         \<and> \<not> starts_in re_regex_dq pre (regex_key w1 w2 [dq] p @ rest) \<longrightarrow>
           get_regex_pattern (pre @ regex_key w1 w2 [dq] p @ rest) = p))
   \<and> (search re_regex_tsq block = None \<and> search re_regex_tdq block = None
        \<and> search re_regex_dq block = None \<longrightarrow> get_regex_pattern block = [])\<close>
proof -
  have r1: "get_regex_match block = first_match [re_regex_tsq, re_regex_tdq, re_regex_dq] block"
    by (rule get_regex_match_first)
  have r2: "get_regex_pattern block
       = (case first_match [re_regex_tsq, re_regex_tdq, re_regex_dq] block of
            Some g \<Rightarrow> g | None \<Rightarrow> [])"
    by (simp only: get_regex_pattern_def r1)
  have e1: \<open>get_regex_pattern (''regex = '' @ tsq @ ''foo"bar'' @ tsq) = ''foo"bar''\<close>
    by code_simp
  have e2: \<open>get_regex_pattern (''regex = '' @ tdq @ ''abc'' @ tdq) = ''abc''\<close>
    by code_simp
  have e3: \<open>get_regex_pattern ''regex = "abc"'' = ''abc''\<close>
    by code_simp
  have g1: "get_regex_pattern (pre @ regex_key w1 w2 tsq p @ rest) = p"
    if "\<forall>x\<in>set w1. is_space x" "\<forall>x\<in>set w2. is_space x" "p \<noteq> []"
      "sq \<notin> set p" "CHR 0x0A \<notin> set p"
      "\<not> starts_in re_regex_tsq pre (regex_key w1 w2 tsq p @ rest)"
    by (rule get_regex_pattern_tsq [OF regex_tsq_at [OF that]])
  have g2: "get_regex_pattern (pre @ regex_key w1 w2 tdq p @ rest) = p"
    if "\<forall>x\<in>set w1. is_space x" "\<forall>x\<in>set w2. is_space x" "p \<noteq> []"
      "dq \<notin> set p" "CHR 0x0A \<notin> set p"
      "search re_regex_tsq (pre @ regex_key w1 w2 tdq p @ rest) = None"
      "\<not> starts_in re_regex_tdq pre (regex_key w1 w2 tdq p @ rest)"
    by (rule get_regex_pattern_tdq [OF that(6) regex_tdq_at [OF that(1-5,7)]])
  have g3: "get_regex_pattern (pre @ regex_key w1 w2 [dq] p @ rest) = p"
    if "\<forall>x\<in>set w1. is_space x" "\<forall>x\<in>set w2. is_space x" "p \<noteq> []"
      "dq \<notin> set p"
      "search re_regex_tsq (pre @ regex_key w1 w2 [dq] p @ rest) = None"
      "search re_regex_tdq (pre @ regex_key w1 w2 [dq] p @ rest) = None"
      "\<not> starts_in re_regex_dq pre (regex_key w1 w2 [dq] p @ rest)"
    by (rule get_regex_pattern_dq [OF that(5,6) regex_dq_at [OF that(1-4,7)]])
  have n: "get_regex_pattern block = []"
    if "search re_regex_tsq block = None" "search re_regex_tdq block = None"
       "search re_regex_dq block = None"
    by (rule get_regex_pattern_none [OF that])
  show ?thesis
    apply (intro conjI impI)
          apply (rule r1)
         apply (rule r2)
        apply (rule e1)
       apply (rule e2)
      apply (rule e3)
     apply (rule g1; blast)
    apply (rule g2; blast)
    apply (rule g3; blast)
    apply (rule n; blast)
    done
qed

theorem pattern_fallback_order_witness:
  \<open>is_space (CHR '' '') \<and> ''a"b'' \<noteq> [] \<and> sq \<notin> set ''a"b'' \<and> CHR 0x0A \<notin> set ''a"b''
   \<and> \<not> starts_in re_regex_tsq ''regex = "c"\<newline>'' (regex_key '' '' '' '' tsq ''a"b'' @ ''\<newline>'')
   \<and> get_regex_pattern (''regex = "c"\<newline>'' @ regex_key '' '' '' '' tsq ''a"b'' @ ''\<newline>'') = ''a"b''
   \<and> dq \<notin> set ''abc'' \<and> CHR 0x0A \<notin> set ''abc''
   \<and> search re_regex_tsq (''regex = "c"\<newline>'' @ regex_key '' '' '' '' tdq ''abc'' @ ''\<newline>'') = None
   \<and> \<not> starts_in re_regex_tdq ''regex = "c"\<newline>'' (regex_key '' '' '' '' tdq ''abc'' @ ''\<newline>'')
   \<and> get_regex_pattern (''regex = "c"\<newline>'' @ regex_key '' '' '' '' tdq ''abc'' @ ''\<newline>'') = ''abc''
   \<and> search re_regex_tsq (''id = "x"\<newline>'' @ regex_key '' '' '' '' [dq] ''abc'' @ ''\<newline>'') = None
   \<and> search re_regex_tdq (''id = "x"\<newline>'' @ regex_key '' '' '' '' [dq] ''abc'' @ ''\<newline>'') = None
   \<and> \<not> starts_in re_regex_dq ''id = "x"\<newline>'' (regex_key '' '' '' '' [dq] ''abc'' @ ''\<newline>'')
   \<and> get_regex_pattern (''id = "x"\<newline>'' @ regex_key '' '' '' '' [dq] ''abc'' @ ''\<newline>'') = ''abc''
   \<and> search re_regex_tsq ''id = "x"\<newline>'' = None \<and> search re_regex_tdq ''id = "x"\<newline>'' = None
   \<and> search re_regex_dq ''id = "x"\<newline>'' = None \<and> get_regex_pattern ''id = "x"\<newline>'' = []\<close>
proof -
  have sp: "is_space (CHR '' '')" by (simp add: is_space_def)
  have s: "\<forall>x\<in>set '' ''. is_space x" using sp by simp
  have a1: \<open>''a"b'' \<noteq> [] \<and> sq \<notin> set ''a"b'' \<and> CHR 0x0A \<notin> set ''a"b''\<close>
    by (simp add: sq_def)
  have a2: \<open>''abc'' \<noteq> [] \<and> dq \<notin> set ''abc'' \<and> CHR 0x0A \<notin> set ''abc''\<close>
    by (simp add: dq_def)
  have n1: \<open>\<not> starts_in re_regex_tsq ''regex = "c"\<newline>'' (regex_key '' '' '' '' tsq ''a"b'' @ ''\<newline>'')\<close>
    by code_simp
  have n2: \<open>search re_regex_tsq (''regex = "c"\<newline>'' @ regex_key '' '' '' '' tdq ''abc'' @ ''\<newline>'') = None\<close>
    by code_simp
  have n3: \<open>\<not> starts_in re_regex_tdq ''regex = "c"\<newline>'' (regex_key '' '' '' '' tdq ''abc'' @ ''\<newline>'')\<close>
    by code_simp
  have n4: \<open>search re_regex_tsq (''id = "x"\<newline>'' @ regex_key '' '' '' '' [dq] ''abc'' @ ''\<newline>'') = None\<close>
    by code_simp
  have n5: \<open>search re_regex_tdq (''id = "x"\<newline>'' @ regex_key '' '' '' '' [dq] ''abc'' @ ''\<newline>'') = None\<close>
    by code_simp
  have n6: \<open>\<not> starts_in re_regex_dq ''id = "x"\<newline>'' (regex_key '' '' '' '' [dq] ''abc'' @ ''\<newline>'')\<close>
    by code_simp
  have n7: \<open>search re_regex_tsq ''id = "x"\<newline>'' = None\<close> by code_simp
  have n8: \<open>search re_regex_tdq ''id = "x"\<newline>'' = None\<close> by code_simp
  have n9: \<open>search re_regex_dq ''id = "x"\<newline>'' = None\<close> by code_simp
  note T = pattern_fallback_order [THEN conjunct2, THEN conjunct2, THEN conjunct2,
      THEN conjunct2, THEN conjunct2]
  have h0a: \<open>(\<forall>x\<in>set '' ''. is_space x) \<and> (\<forall>x\<in>set '' ''. is_space x) \<and> ''a"b'' \<noteq> []\<close>
    using s a1 by (intro conjI) simp_all
  have h0b: \<open>(\<forall>x\<in>set '' ''. is_space x) \<and> (\<forall>x\<in>set '' ''. is_space x) \<and> ''abc'' \<noteq> []\<close>
    using s a2 by (intro conjI) simp_all
  have h1: \<open>sq \<notin> set ''a"b'' \<and> CHR 0x0A \<notin> set ''a"b''
     \<and> \<not> starts_in re_regex_tsq ''regex = "c"\<newline>'' (regex_key '' '' '' '' tsq ''a"b'' @ ''\<newline>'')\<close>
    using a1 by (intro conjI n1) simp_all
  have h2: \<open>dq \<notin> set ''abc'' \<and> CHR 0x0A \<notin> set ''abc''
     \<and> search re_regex_tsq (''regex = "c"\<newline>'' @ regex_key '' '' '' '' tdq ''abc'' @ ''\<newline>'') = None
     \<and> \<not> starts_in re_regex_tdq ''regex = "c"\<newline>'' (regex_key '' '' '' '' tdq ''abc'' @ ''\<newline>'')\<close>
    using a2 by (intro conjI n2 n3) simp_all
  have h3: \<open>dq \<notin> set ''abc''
     \<and> search re_regex_tsq (''id = "x"\<newline>'' @ regex_key '' '' '' '' [dq] ''abc'' @ ''\<newline>'') = None
     \<and> search re_regex_tdq (''id = "x"\<newline>'' @ regex_key '' '' '' '' [dq] ''abc'' @ ''\<newline>'') = None
     \<and> \<not> starts_in re_regex_dq ''id = "x"\<newline>'' (regex_key '' '' '' '' [dq] ''abc'' @ ''\<newline>'')\<close>
    using a2 by (intro conjI n4 n5 n6) simp_all
  have c1: \<open>get_regex_pattern (''regex = "c"\<newline>'' @ regex_key '' '' '' '' tsq ''a"b'' @ ''\<newline>'') = ''a"b''\<close>
    by (rule T [THEN conjunct1, THEN mp, OF h0a, THEN conjunct1, THEN mp, OF h1])
  have c2: \<open>get_regex_pattern (''regex = "c"\<newline>'' @ regex_key '' '' '' '' tdq ''abc'' @ ''\<newline>'') = ''abc''\<close>
    by (rule T [THEN conjunct1, THEN mp, OF h0b, THEN conjunct2, THEN conjunct1, THEN mp, OF h2])
  have c3: \<open>get_regex_pattern (''id = "x"\<newline>'' @ regex_key '' '' '' '' [dq] ''abc'' @ ''\<newline>'') = ''abc''\<close>
    by (rule T [THEN conjunct1, THEN mp, OF h0b, THEN conjunct2, THEN conjunct2, THEN mp, OF h3])
  have c4: \<open>get_regex_pattern ''id = "x"\<newline>'' = []\<close>
    by (rule T [THEN conjunct2, rule_format]) (simp only: n7 n8 n9 simp_thms)
  show ?thesis
    by (intro conjI sp n1 n2 n3 n4 n5 n6 n7 n8 n9 c1 c2 c3 c4) (use a1 a2 in simp_all)
qed




subsection \<open>The keywords field\<close>

text \<open>
  Claim C7 says that the keywords are all the double-quoted strings inside the brackets,
  in order. This holds for lists of non-empty strings (lemma \<open>keywords_in_order\<close>). The
  pattern \<^verbatim>\<open>"([^"]+)"\<close> does not match an empty string \<open>""\<close>, and the scan then pairs
  the closing quote of the empty string with the opening quote of the next one: the
  separator becomes a keyword and the keyword \<open>a\<close> is lost.
\<close>

theorem keywords_mispaired:
  \<open>parse_gitleaks ''[[rules]]\<newline>id = "a"\<newline>regex = "x"\<newline>keywords = ["", "a"]\<newline>''
     = Inr [\<lparr>rule_id = ''a'', description = [], regex = ''x'',
              rule_keywords = ['', ''], entropy = 0\<rparr>]\<close>
  by code_simp

subsection \<open>Empty values\<close>

text \<open>
  Claim C10 says that a block whose \<open>id\<close> key, or whose only \<open>regex\<close> key, has the value
  \<open>""\<close> gives no record. The patterns are searched in the whole text of the block and can
  match inside another value: below, the \<open>id\<close> pattern matches at the end of the
  description \<open>void = \<close>, and the plain \<open>regex\<close> pattern at the end of \<open>myregex = \<close>,
  and both blocks give a record.
\<close>

theorem empty_value_other_match_counterexample:
  \<open>parse_gitleaks ''[[rules]]\<newline>id = ""\<newline>description = "void = "\<newline>regex = "x"\<newline>''
     = Inr [\<lparr>rule_id = ''\<newline>regex = '', description = ''void = '', regex = ''x'',
              rule_keywords = [], entropy = 0\<rparr>]
   \<and> parse_gitleaks
       ''[[rules]]\<newline>id = "a"\<newline>regex = ""\<newline>description = "myregex = "\<newline>keywords = ["k"]\<newline>''
     = Inr [\<lparr>rule_id = ''a'', description = ''myregex = '', regex = ''\<newline>keywords = ['',
              rule_keywords = [''k''], entropy = 0\<rparr>]\<close>
  by code_simp

text \<open>
  Claim C10 as amended: an empty value is not matched at its own key, since
  \<^verbatim>\<open>[^"]+\<close> needs a character. A block with \<open>id = ""\<close> gives no record when the \<open>id\<close>
  pattern matches nowhere else in the block, neither before the key nor after it,
  whatever else the block holds; a block with \<open>regex = ""\<close> has an empty pattern and gives
  no record when none of the three forms matches elsewhere in the block.
\<close>

theorem empty_value_is_absent:
  assumes "\<forall>x\<in>set w1. is_space x" and "\<forall>x\<in>set w2. is_space x"
  shows "(\<not> starts_in re_id pre (''id'' @ w1 @ ''='' @ w2 @ [dq, dq] @ post)
          \<and> search re_id post = None \<longrightarrow>
            block_step rules (pre @ ''id'' @ w1 @ ''='' @ w2 @ [dq, dq] @ post) = Inr rules)
       \<and> (\<not> starts_in re_regex_tsq pre (''regex'' @ w1 @ ''='' @ w2 @ [dq, dq] @ post)
          \<and> \<not> starts_in re_regex_tdq pre (''regex'' @ w1 @ ''='' @ w2 @ [dq, dq] @ post)
          \<and> \<not> starts_in re_regex_dq pre (''regex'' @ w1 @ ''='' @ w2 @ [dq, dq] @ post)
          \<and> \<not> prefix [dq] post \<and> get_regex_match post = None \<longrightarrow>
            get_regex_pattern (pre @ ''regex'' @ w1 @ ''='' @ w2 @ [dq, dq] @ post) = []
            \<and> (block_step rules (pre @ ''regex'' @ w1 @ ''='' @ w2 @ [dq, dq] @ post) = Inr rules
               \<or> block_step rules (pre @ ''regex'' @ w1 @ ''='' @ w2 @ [dq, dq] @ post)
                  = Inl ValueError))"
proof (intro conjI impI)
  let ?k = "''id'' @ w1 @ ''='' @ w2 @ [dq, dq] @ post"
  assume a: "\<not> starts_in re_id pre ?k \<and> search re_id post = None"
  have e: "\<not> sublist ''id'' []" by simp
  from a have "search re_id (pre @ ?k) = search re_id ?k"
    by (intro search_not_starts_in) blast
  also have "\<dots> = search re_id post"
    using search_id_empty_value [OF e assms, of post] by simp
  finally have "search re_id (pre @ ?k) = None" using a by simp
  then show "block_step rules (pre @ ?k) = Inr rules"
    by (rule block_step_no_id)
next
  let ?k = "''regex'' @ w1 @ ''='' @ w2 @ [dq, dq] @ post"
  assume a: "\<not> starts_in re_regex_tsq pre ?k \<and> \<not> starts_in re_regex_tdq pre ?k
          \<and> \<not> starts_in re_regex_dq pre ?k \<and> \<not> prefix [dq] post \<and> get_regex_match post = None"
  have e: "\<not> sublist ''regex'' []" by simp
  from a have p: "search re_regex_tsq post = None" "search re_regex_tdq post = None"
    "search re_regex_dq post = None" and np: "\<not> prefix [dq] post"
    by (simp_all add: get_regex_match_None)
  from a have "search re_regex_tsq (pre @ ?k) = search re_regex_tsq ?k"
    by (intro search_not_starts_in) blast
  also have "\<dots> = search re_regex_tsq post"
    using search_regex_tsq_empty_value [OF e assms, of post] by simp
  finally have s1: "search re_regex_tsq (pre @ ?k) = None" using p by simp
  from a have "search re_regex_tdq (pre @ ?k) = search re_regex_tdq ?k"
    by (intro search_not_starts_in) blast
  also have "\<dots> = search re_regex_tdq post"
    using search_regex_tdq_empty_value [OF e assms np] by simp
  finally have s2: "search re_regex_tdq (pre @ ?k) = None" using p by simp
  from a have "search re_regex_dq (pre @ ?k) = search re_regex_dq ?k"
    by (intro search_not_starts_in) blast
  also have "\<dots> = search re_regex_dq post"
    using search_regex_dq_empty_value [OF e assms, of post] by simp
  finally have s3: "search re_regex_dq (pre @ ?k) = None" using p by simp
  show g: "get_regex_pattern (pre @ ?k) = []"
    by (rule get_regex_pattern_none [OF s1 s2 s3])
  show "block_step rules (pre @ ?k) = Inr rules \<or> block_step rules (pre @ ?k) = Inl ValueError"
    by (rule block_step_no_pattern [OF g])
qed

theorem empty_value_is_absent_witness:
  \<open>is_space (CHR '' '')
   \<and> \<not> starts_in re_id ''\<newline>description = "valid"\<newline>''
         (''id'' @ '' '' @ ''='' @ '' '' @ [dq, dq] @ ''\<newline>regex = "x"\<newline>'')
   \<and> search re_id ''\<newline>regex = "x"\<newline>'' = None
   \<and> block_step [] (''\<newline>description = "valid"\<newline>'' @ ''id'' @ '' '' @ ''='' @ '' '' @ [dq, dq]
                    @ ''\<newline>regex = "x"\<newline>'') = Inr []
   \<and> \<not> starts_in re_regex_tsq ''\<newline>id = "a"\<newline>'' (''regex'' @ '' '' @ ''='' @ '' '' @ [dq, dq] @ ''\<newline>'')
   \<and> \<not> starts_in re_regex_tdq ''\<newline>id = "a"\<newline>'' (''regex'' @ '' '' @ ''='' @ '' '' @ [dq, dq] @ ''\<newline>'')
   \<and> \<not> starts_in re_regex_dq ''\<newline>id = "a"\<newline>'' (''regex'' @ '' '' @ ''='' @ '' '' @ [dq, dq] @ ''\<newline>'')
   \<and> \<not> prefix [dq] ''\<newline>'' \<and> get_regex_match ''\<newline>'' = None
   \<and> get_regex_pattern (''\<newline>id = "a"\<newline>'' @ ''regex'' @ '' '' @ ''='' @ '' '' @ [dq, dq] @ ''\<newline>'') = []
   \<and> block_step [] (''\<newline>id = "a"\<newline>'' @ ''regex'' @ '' '' @ ''='' @ '' '' @ [dq, dq] @ ''\<newline>'') = Inr []\<close>
proof -
  have sp: "is_space (CHR '' '')" by (simp add: is_space_def)
  have s: "\<forall>x\<in>set '' ''. is_space x" using sp by simp
  have i1: \<open>\<not> starts_in re_id ''\<newline>description = "valid"\<newline>''
         (''id'' @ '' '' @ ''='' @ '' '' @ [dq, dq] @ ''\<newline>regex = "x"\<newline>'')\<close>
    by code_simp
  have i2: \<open>search re_id ''\<newline>regex = "x"\<newline>'' = None\<close>
    by code_simp
  have r1: \<open>\<not> starts_in re_regex_tsq ''\<newline>id = "a"\<newline>'' (''regex'' @ '' '' @ ''='' @ '' '' @ [dq, dq] @ ''\<newline>'')\<close>
    by code_simp
  have r2: \<open>\<not> starts_in re_regex_tdq ''\<newline>id = "a"\<newline>'' (''regex'' @ '' '' @ ''='' @ '' '' @ [dq, dq] @ ''\<newline>'')\<close>
    by code_simp
  have r3: \<open>\<not> starts_in re_regex_dq ''\<newline>id = "a"\<newline>'' (''regex'' @ '' '' @ ''='' @ '' '' @ [dq, dq] @ ''\<newline>'')\<close>
    by code_simp
  have r4: \<open>\<not> prefix [dq] ''\<newline>''\<close> by (simp add: dq_def)
  have r5: \<open>get_regex_match ''\<newline>'' = None\<close> by code_simp
  have hi: \<open>\<not> starts_in re_id ''\<newline>description = "valid"\<newline>''
         (''id'' @ '' '' @ ''='' @ '' '' @ [dq, dq] @ ''\<newline>regex = "x"\<newline>'')
       \<and> search re_id ''\<newline>regex = "x"\<newline>'' = None\<close>
    by (intro conjI i1 i2)
  have hr: \<open>\<not> starts_in re_regex_tsq ''\<newline>id = "a"\<newline>'' (''regex'' @ '' '' @ ''='' @ '' '' @ [dq, dq] @ ''\<newline>'')
     \<and> \<not> starts_in re_regex_tdq ''\<newline>id = "a"\<newline>'' (''regex'' @ '' '' @ ''='' @ '' '' @ [dq, dq] @ ''\<newline>'')
     \<and> \<not> starts_in re_regex_dq ''\<newline>id = "a"\<newline>'' (''regex'' @ '' '' @ ''='' @ '' '' @ [dq, dq] @ ''\<newline>'')
     \<and> \<not> prefix [dq] ''\<newline>'' \<and> get_regex_match ''\<newline>'' = None\<close>
    by (intro conjI r1 r2 r3 r4 r5)
  have c1: \<open>block_step [] (''\<newline>description = "valid"\<newline>'' @ ''id'' @ '' '' @ ''='' @ '' '' @ [dq, dq]
                    @ ''\<newline>regex = "x"\<newline>'') = Inr []\<close>
    by (rule empty_value_is_absent [OF s s, THEN conjunct1, THEN mp, OF hi])
  have c2: \<open>get_regex_pattern (''\<newline>id = "a"\<newline>'' @ ''regex'' @ '' '' @ ''='' @ '' '' @ [dq, dq] @ ''\<newline>'') = []\<close>
    by (rule empty_value_is_absent [OF s s, THEN conjunct2, THEN mp, OF hr, THEN conjunct1])
  have c3: \<open>block_step [] (''\<newline>id = "a"\<newline>'' @ ''regex'' @ '' '' @ ''='' @ '' '' @ [dq, dq] @ ''\<newline>'') = Inr []\<close>
    by code_simp
  show ?thesis
    by (intro conjI sp i1 i2 r1 r2 r3 r4 r5 c1 c2 c3)
qed


end
